theory Spec2Isabelle
  imports Main "HOL-Library.Multiset" "HOL-Library.Product_Lexorder"
begin

section \<open>JavaScript values used by lib/npm.js\<close>

text \<open>
  Strings are lists of code units below 256. Every exception or promise rejection of
  the source is a value of \<open>js_error\<close>: \<open>Error\<close> for \<open>new Error(msg)\<close>,
  \<open>TypeError\<close> for the engine's own type errors, \<open>SysError\<close> for a failure
  reported by the file system or the network (an errno-style code).
\<close>

datatype js_error = Error string | TypeError string | SysError string

definition bind_res :: "js_error + 'a \<Rightarrow> ('a \<Rightarrow> js_error + 'b) \<Rightarrow> js_error + 'b" where
  "bind_res r f = (case r of Inl e \<Rightarrow> Inl e | Inr x \<Rightarrow> f x)"

subsection \<open>String.prototype.indexOf, replace, split, join, trim\<close>

fun starts_with :: "string \<Rightarrow> string \<Rightarrow> bool" where
  "starts_with s [] = True"
| "starts_with [] (p # ps) = False"
| "starts_with (c # cs) (p # ps) = (c = p \<and> starts_with cs ps)"

fun find_sub :: "string \<Rightarrow> string \<Rightarrow> nat option" where
  "find_sub pat [] = (if pat = [] then Some 0 else None)"
| "find_sub pat (c # cs) =
     (if starts_with (c # cs) pat then Some 0 else map_option Suc (find_sub pat cs))"

definition js_indexOf :: "string \<Rightarrow> string \<Rightarrow> int" where
  "js_indexOf s pat = (case find_sub pat s of None \<Rightarrow> - 1 | Some i \<Rightarrow> int i)"

text \<open>
  The replacement text of \<open>replace\<close> with a string pattern: \<open>$$\<close> is a dollar sign,
  \<open>$&\<close> the matched text, \<open>$`\<close> the text before the match, \<open>$'\<close> the text after
  it; with no capture groups every other \<open>$\<close> sequence stays as it is.
\<close>

fun substitution :: "string \<Rightarrow> string \<Rightarrow> string \<Rightarrow> string \<Rightarrow> string" where
  "substitution m b a [] = []"
| "substitution m b a [c] = [c]"
| "substitution m b a (c # d # r) =
     (if c = CHR ''$'' then
        (if d = CHR ''$'' then CHR ''$'' # substitution m b a r
         else if d = CHR ''&'' then m @ substitution m b a r
         else if d = CHR 0x60 then b @ substitution m b a r
         else if d = CHR 0x27 then a @ substitution m b a r
         else c # substitution m b a (d # r))
      else c # substitution m b a (d # r))"

text \<open>\<open>s.replace(pat, rep)\<close> with a string pattern replaces the first occurrence only.\<close>

definition js_replace :: "string \<Rightarrow> string \<Rightarrow> string \<Rightarrow> string" where
  "js_replace s pat rep =
     (case find_sub pat s of
        None \<Rightarrow> s
      | Some i \<Rightarrow>
          take i s @ substitution pat (take i s) (drop (i + length pat) s) rep
            @ drop (i + length pat) s)"

fun js_split :: "char \<Rightarrow> string \<Rightarrow> string list" where
  "js_split sep [] = [[]]"
| "js_split sep (c # cs) =
     (if c = sep then [] # js_split sep cs
      else (case js_split sep cs of [] \<Rightarrow> [[c]] | w # ws \<Rightarrow> (c # w) # ws))"

fun js_join :: "string \<Rightarrow> string list \<Rightarrow> string" where
  "js_join sep [] = []"
| "js_join sep [x] = x"
| "js_join sep (x # y # r) = x @ sep @ js_join sep (y # r)"

definition is_space :: "char \<Rightarrow> bool" where
  "is_space c = (of_char c \<in> {9, 10, 11, 12, 13, 32, 160 :: nat})"

definition js_trim :: "string \<Rightarrow> string" where
  "js_trim s = rev (dropWhile is_space (rev (dropWhile is_space s)))"

section \<open>Download URL\<close>

text \<open>
  \<^verbatim>\<open>NPMIST.downloadUrl = function(version){
    return 'https://codeload.github.com/npm/cli/tar.gz/vVERSION'
      .replace('VERSION',version.replace('v',''));
  };\<close>
\<close>

definition downloadUrl :: "string \<Rightarrow> string" where
  "downloadUrl version =
     js_replace ''https://codeload.github.com/npm/cli/tar.gz/vVERSION'' ''VERSION''
       (js_replace version ''v'' '''')"

section \<open>Local version file\<close>

text \<open>
  \<open>getLocal\<close> calls its callback either with no arguments or with
  \<open>(null, version, file)\<close>. The file system is the function \<open>readFile\<close> from a
  path to the content of the file there, or to the error reading it gives.
\<close>

datatype local_result = No_arguments | Found string string

definition backslash :: char where
  "backslash = CHR 0x5C"

function search :: "(string \<Rightarrow> js_error + string) \<Rightarrow> string list \<Rightarrow> local_result" where
  "search readFile dirArray =
     (if length dirArray = 0 then No_arguments
      else
        let dir = js_join [backslash] dirArray;
            file = dir @ backslash # ''.npm-version''
        in case readFile file of
             Inl er \<Rightarrow> search readFile (butlast dirArray)
           | Inr version \<Rightarrow> Found (js_trim version) file)"
  by pat_completeness auto
termination
  by (relation "measure (\<lambda>(readFile, dirArray). length dirArray)") auto

definition getLocal :: "(string \<Rightarrow> js_error + string) \<Rightarrow> string \<Rightarrow> local_result" where
  "getLocal readFile cwd = search readFile (js_split backslash cwd)"

definition version_file :: "string list \<Rightarrow> string" where
  "version_file segs = js_join [backslash] segs @ backslash # ''.npm-version''"

text \<open>
  A concrete file system: the only version file is the one in \<open>C:\\a\<close>, and it holds
  the version between spaces.
\<close>

definition win_path :: "string list \<Rightarrow> string" where
  "win_path segs = js_join [backslash] segs"

definition win_files :: "string \<Rightarrow> js_error + string" where
  "win_files p =
     (if p = win_path [''C:'', ''a'', ''.npm-version''] then Inr '' 8.1.0 ''
      else Inl (SysError ''ENOENT''))"

section \<open>The semver library\<close>

text \<open>
  \<open>require('semver')\<close> is an external library. The functions the source calls are
  the fields of a record, so every definition below takes the library as its argument
  \<open>sv\<close>. \<open>null\<close> is \<open>None\<close>.
  \<^item> \<open>clean v\<close>: the normalised version string, or \<open>null\<close>;
  \<^item> \<open>valid v opts\<close>: the normalised version string, or \<open>null\<close>; \<open>v\<close> may be
    \<open>null\<close>, and \<open>opts\<close> is the second argument, \<open>None\<close> when the call passes
    one argument and \<open>Some i\<close> when it passes the number \<open>i\<close>;
  \<^item> \<open>validRange r\<close>: the normalised range, or \<open>null\<close>;
  \<^item> \<open>satisfies r v\<close>: \<open>new Range(r).test(v)\<close>;
  \<^item> \<open>compare a b\<close>: \<open>-1\<close>, \<open>0\<close> or \<open>1\<close>, or a thrown \<open>TypeError\<close> when an
    argument is not a version.
\<close>

record semver =
  clean :: "string \<Rightarrow> string option"
  valid :: "string option \<Rightarrow> nat option \<Rightarrow> string option"
  validRange :: "string \<Rightarrow> string option"
  satisfies :: "string \<Rightarrow> string \<Rightarrow> bool"
  compare :: "string \<Rightarrow> string \<Rightarrow> js_error + int"

text \<open>JavaScript truthiness of a value that is a string or \<open>null\<close>.\<close>

definition truthy :: "string option \<Rightarrow> bool" where
  "truthy x = (case x of None \<Rightarrow> False | Some s \<Rightarrow> s \<noteq> [])"

text \<open>\<open>semver.gte(a, b)\<close> is \<open>compare(a, b) >= 0\<close>.\<close>

definition gte :: "semver \<Rightarrow> string \<Rightarrow> string \<Rightarrow> js_error + bool" where
  "gte sv a b = bind_res (compare sv a b) (\<lambda>c. Inr (c \<ge> 0))"

text \<open>
  \<open>semver.maxSatisfying(versions, range)\<close>: \<open>null\<close> when the range does not parse;
  otherwise the loop
  \<^verbatim>\<open>versions.forEach((v) => {
    if (rangeObj.test(v)) {
      if (!max || maxSV.compare(v) === -1) { max = v; maxSV = new SemVer(max, options) }
    }
  })
  return max\<close>
\<close>

fun maxSatisfying_loop ::
  "semver \<Rightarrow> string \<Rightarrow> string list \<Rightarrow> string option \<Rightarrow> js_error + string option" where
  "maxSatisfying_loop sv rng [] mx = Inr mx"
| "maxSatisfying_loop sv rng (v # vs) mx =
     (if satisfies sv rng v then
        (if \<not> truthy mx then maxSatisfying_loop sv rng vs (Some v)
         else
           bind_res (compare sv (the mx) v)
             (\<lambda>c. maxSatisfying_loop sv rng vs (if c = - 1 then Some v else mx)))
      else maxSatisfying_loop sv rng vs mx)"

definition maxSatisfying :: "semver \<Rightarrow> string list \<Rightarrow> string \<Rightarrow> js_error + string option" where
  "maxSatisfying sv versions rng =
     (if validRange sv rng = None then Inr None
      else maxSatisfying_loop sv rng versions None)"

text \<open>
  What \<open>compare\<close> promises on a set of version strings: it does not throw there and
  orders them by their semantic precedence \<open>key\<close>.
\<close>

definition ordered_by :: "semver \<Rightarrow> (string \<Rightarrow> 'k::linorder) \<Rightarrow> string set \<Rightarrow> bool" where
  "ordered_by sv key S =
     (\<forall>a \<in> S. \<forall>b \<in> S.
        compare sv a b = Inr (if key a < key b then - 1 else if key a = key b then 0 else 1))"

subsection \<open>Array.prototype.filter and sort with callbacks that may throw\<close>

fun js_filter :: "('a \<Rightarrow> js_error + bool) \<Rightarrow> 'a list \<Rightarrow> js_error + 'a list" where
  "js_filter p [] = Inr []"
| "js_filter p (x # xs) =
     bind_res (p x) (\<lambda>b. bind_res (js_filter p xs) (\<lambda>r. Inr (if b then x # r else r)))"

text \<open>
  \<open>sort(cmp)\<close> as a stable insertion sort: an element goes before the first element
  of the sorted rest that \<open>cmp\<close> does not put before it. A one-element array is
  sorted without calling \<open>cmp\<close>; a throw of \<open>cmp\<close> is a throw of \<open>sort\<close>.
\<close>

fun js_insert :: "('a \<Rightarrow> 'a \<Rightarrow> js_error + int) \<Rightarrow> 'a \<Rightarrow> 'a list \<Rightarrow> js_error + 'a list" where
  "js_insert cmp x [] = Inr [x]"
| "js_insert cmp x (y # ys) =
     bind_res (cmp x y)
       (\<lambda>c. if c \<le> 0 then Inr (x # y # ys)
            else bind_res (js_insert cmp x ys) (\<lambda>r. Inr (y # r)))"

fun js_sort :: "('a \<Rightarrow> 'a \<Rightarrow> js_error + int) \<Rightarrow> 'a list \<Rightarrow> js_error + 'a list" where
  "js_sort cmp [] = Inr []"
| "js_sort cmp (x # xs) = bind_res (js_sort cmp xs) (js_insert cmp x)"

section \<open>The remote catalog\<close>

text \<open>
  A release of the GitHub API has a \<open>tag_name\<close> and a \<open>name\<close>. The remote side is
  what the three requests of the source answer: \<open>octokit.paginate\<close> over the
  releases of \<open>npm/npm\<close> and of \<open>npm/cli\<close> (all pages, concatenated), and page
  \<open>page\<close> of \<open>listReleases\<close> for \<open>npm/cli\<close> with 50 entries per page. Each may
  reject.
\<close>

record release =
  tag_name :: string
  name :: string

record remote =
  npm_releases :: "js_error + release list"
  cli_releases :: "js_error + release list"
  cli_page :: "nat \<Rightarrow> js_error + release list"

text \<open>The host runtime's version manager, \<open>this.nodist\<close>.\<close>

record nodist =
  getCurrentVersion :: "js_error + string"
  getMatchingNpmVersion :: "string \<Rightarrow> js_error + string"

subsection \<open>listAvailable\<close>

text \<open>
  Both \<open>paginate\<close> calls map every page with
  \<open>response.data.map(function(release) { return release.tag_name; })\<close>, so \<open>npm\<close>
  and \<open>cli\<close> are arrays of strings. The filter callback
  \<open>release => release.name.indexOf(':') < 0\<close> is modelled on the values it can meet:
  reading \<open>name\<close> from a release object gives its name, from a string primitive
  \<open>undefined\<close>; calling \<open>indexOf\<close> on \<open>undefined\<close> throws a \<open>TypeError\<close>.
  When both requests fail, \<open>Promise.all\<close> rejects with the failure that comes
  first; it is taken to be the first feed's.
\<close>

datatype js_value = Undefined | Str string | Release release

text \<open>
  The engine's message for a property read on \<open>undefined\<close>, with the property's
  name in single quotes.
\<close>

definition reading_undefined :: "string \<Rightarrow> string" where
  "reading_undefined prop =
     ''Cannot read properties of undefined (reading '' @ [CHR 0x27] @ prop @ [CHR 0x27] @ '')''"

fun get_name :: "js_value \<Rightarrow> js_error + js_value" where
  "get_name (Release r) = Inr (Str (name r))"
| "get_name (Str s) = Inr Undefined"
| "get_name Undefined = Inl (TypeError (reading_undefined ''name''))"

fun call_indexOf :: "js_value \<Rightarrow> string \<Rightarrow> js_error + int" where
  "call_indexOf (Str s) pat = Inr (js_indexOf s pat)"
| "call_indexOf Undefined pat = Inl (TypeError (reading_undefined ''indexOf''))"
| "call_indexOf (Release r) pat = Inl (TypeError ''release.name.indexOf is not a function'')"

definition no_separator :: "js_value \<Rightarrow> js_error + bool" where
  "no_separator release =
     bind_res (get_name release) (\<lambda>n. bind_res (call_indexOf n '':'') (\<lambda>i. Inr (i < 0)))"

definition listAvailable :: "remote \<Rightarrow> js_error + string list" where
  "listAvailable gh =
     bind_res (npm_releases gh) (\<lambda>npm_data.
     bind_res (cli_releases gh) (\<lambda>cli_data.
       let npm = map tag_name npm_data;
           cli = map tag_name cli_data
       in bind_res (js_filter (\<lambda>release. no_separator (Str release)) cli)
            (\<lambda>cli. Inr (npm @ cli))))"

subsection \<open>getNpmReleases and latestVersion\<close>

definition is_digit :: "char \<Rightarrow> bool" where
  "is_digit c = (48 \<le> (of_char c :: nat) \<and> (of_char c :: nat) \<le> 57)"

definition digits :: "string \<Rightarrow> bool" where
  "digits s = (s \<noteq> [] \<and> list_all is_digit s)"

text \<open>The test \<open>/^v\d+\.\d+\.\d+$/\<close>.\<close>

definition version_tag :: "string \<Rightarrow> bool" where
  "version_tag s =
     (case s of
        [] \<Rightarrow> False
      | c # rest \<Rightarrow>
          c = CHR ''v'' \<and>
          (case js_split CHR ''.'' rest of
             [major, minor, patch] \<Rightarrow> digits major \<and> digits minor \<and> digits patch
           | _ \<Rightarrow> False))"

text \<open>The tags of a page that pass the test, in the page's order.\<close>

definition qualifying :: "release list \<Rightarrow> string list" where
  "qualifying data = filter version_tag (map tag_name data)"

text \<open>
  A page the loop of \<open>latestVersion\<close> passes over: the request for it succeeds and
  none of its tags passes the test.
\<close>

definition passed_over :: "remote \<Rightarrow> nat \<Rightarrow> bool" where
  "passed_over gh page =
     (case cli_page gh page of Inl e \<Rightarrow> False | Inr data \<Rightarrow> qualifying data = [])"

definition getNpmReleases :: "semver \<Rightarrow> remote \<Rightarrow> nat \<Rightarrow> js_error + string list" where
  "getNpmReleases sv gh page =
     bind_res (cli_page gh page)
       (\<lambda>data. js_sort (compare sv) (filter version_tag (map tag_name data)))"

text \<open>
  The loop of \<open>latestVersion\<close>, returning the last page's releases and the page counter
  it stopped at; \<open>None\<close> is a loop that never ends.
\<close>

partial_function (option) latestVersion_loop ::
  "semver \<Rightarrow> remote \<Rightarrow> string list \<Rightarrow> nat \<Rightarrow> (js_error + string list \<times> nat) option" where
  "latestVersion_loop sv gh releases page =
     (if length releases = 0 then
        (case getNpmReleases sv gh page of
           Inl e \<Rightarrow> Some (Inl e)
         | Inr releases' \<Rightarrow> latestVersion_loop sv gh releases' (page + 1))
      else Some (Inr (releases, page)))"

definition latestVersion :: "semver \<Rightarrow> remote \<Rightarrow> (js_error + string) option" where
  "latestVersion sv gh =
     map_option (\<lambda>r. bind_res r (\<lambda>(releases, page). Inr (last releases)))
       (latestVersion_loop sv gh [] 1)"

definition matchingVersion :: "nodist \<Rightarrow> js_error + string" where
  "matchingVersion nd =
     bind_res (getCurrentVersion nd) (\<lambda>nodeVersion. getMatchingNpmVersion nd nodeVersion)"

subsection \<open>resolveVersion\<close>

text \<open>
  What becomes of the callback \<open>done\<close>: called with an error, called with
  \<open>(null, version)\<close>, never called because a promise without a \<open>catch\<close> rejected
  (or an exception left the function), or never called because a promise the call waits
  for is never settled.
\<close>

datatype done_result = Done_error js_error | Done string | Unhandled js_error | Not_called

definition no_match :: "string \<Rightarrow> string" where
  "no_match v =
     ''Version spec, '' @ [CHR 0x22] @ v @ [CHR 0x22] @ '', didn'' @ [CHR 0x27]
       @ ''t match any version''"

definition resolveVersion :: "semver \<Rightarrow> remote \<Rightarrow> nodist \<Rightarrow> string \<Rightarrow> done_result option" where
  "resolveVersion sv gh nd v =
     (if v = ''latest'' \<or> v = [] then
        map_option (\<lambda>r. case r of Inl e \<Rightarrow> Unhandled e | Inr latest \<Rightarrow> Done latest)
          (latestVersion sv gh)
      else if v = ''match'' then
        Some (case matchingVersion nd of Inl e \<Rightarrow> Unhandled e | Inr version \<Rightarrow> Done version)
      else
        Some (case bind_res (listAvailable gh) (\<lambda>available.
                     if truthy (validRange sv v) then maxSatisfying sv available v
                     else Inr (clean sv v)) of
                Inl err \<Rightarrow> Done_error err
              | Inr version \<Rightarrow>
                  if \<not> truthy version then Done_error (Error (no_match v))
                  else Done (the version)))"

section \<open>Concrete inputs\<close>

text \<open>
  An instance of the semver interface on which the definitions can be run. It is a
  fragment of the library: it knows plain versions \<open>MAJOR.MINOR.PATCH\<close> (numbers
  without leading zeros and not above \<open>Number.MAX_SAFE_INTEGER\<close>, an optional leading
  \<open>v\<close>, at most 256 characters), the caret ranges \<open>^MAJOR.MINOR.PATCH\<close> and a plain
  version, with or without a leading \<open>=\<close>, as a range matching itself. Versions
  with prerelease or build tags or surrounding spaces and the other forms of ranges,
  which the library accepts, are unknown to it, and it answers on them as on invalid
  input. As a range's normal form it returns the range text: the source only tests it
  for truthiness. \<open>compare\<close> builds its first argument first and throws the
  library's \<open>TypeError\<close> for the one that is not a version.

  The second argument of \<open>valid\<close> is the library's \<open>optionsOrLoose\<close>: a value
  that is not an object selects loose parsing when it is truthy, so a number other
  than 0 does. Loose parsing accepts leading \<open>v\<close>, \<open>=\<close> and spaces and numbers
  with leading zeros, and returns the version normalised.
\<close>

definition numeric :: "string \<Rightarrow> bool" where
  "numeric s = (digits s \<and> (s = ''0'' \<or> hd s \<noteq> CHR ''0''))"

definition number_of :: "string \<Rightarrow> nat" where
  "number_of s = foldl (\<lambda>n c. 10 * n + (of_char c - 48)) 0 s"

text \<open>
  A number written without leading zeros is at most \<open>Number.MAX_SAFE_INTEGER\<close>,
  9007199254740991, when it has fewer than 16 digits, or 16 digits that do not come
  after that number's.
\<close>

fun digits_le :: "string \<Rightarrow> string \<Rightarrow> bool" where
  "digits_le [] ys = True"
| "digits_le (x # xs) [] = False"
| "digits_le (x # xs) (y # ys) =
     ((of_char x :: nat) < of_char y \<or> (x = y \<and> digits_le xs ys))"

definition safe_number :: "string \<Rightarrow> bool" where
  "safe_number s = (length s < 16 \<or> (length s = 16 \<and> digits_le s ''9007199254740991''))"

definition parse_plain :: "string \<Rightarrow> (nat \<times> nat \<times> nat) option" where
  "parse_plain s =
     (case js_split CHR ''.'' s of
        [a, b, c] \<Rightarrow>
          if numeric a \<and> numeric b \<and> numeric c
             \<and> safe_number a \<and> safe_number b \<and> safe_number c
          then Some (number_of a, number_of b, number_of c) else None
      | _ \<Rightarrow> None)"

definition strip_v :: "string \<Rightarrow> string" where
  "strip_v s = (case s of [] \<Rightarrow> [] | c # cs \<Rightarrow> if c = CHR ''v'' then cs else s)"

definition parse_version :: "string \<Rightarrow> (nat \<times> nat \<times> nat) option" where
  "parse_version s = (if 256 < length s then None else parse_plain (strip_v s))"

text \<open>The message of the \<open>TypeError\<close> that \<open>new SemVer(s)\<close> throws.\<close>

definition version_error :: "string \<Rightarrow> string" where
  "version_error s =
     (if 256 < length s then ''version is longer than 256 characters''
      else
        (case js_split CHR ''.'' (strip_v s) of
           [a, b, c] \<Rightarrow>
             if numeric a \<and> numeric b \<and> numeric c then
               (if \<not> safe_number a then ''Invalid major version''
                else if \<not> safe_number b then ''Invalid minor version''
                else ''Invalid patch version'')
             else ''Invalid Version: '' @ s
         | _ \<Rightarrow> ''Invalid Version: '' @ s))"

definition parse_range :: "string \<Rightarrow> ((nat \<times> nat \<times> nat) \<times> (nat \<times> nat \<times> nat)) option" where
  "parse_range r =
     (case r of
        [] \<Rightarrow> None
      | c # cs \<Rightarrow>
          if c = CHR ''^'' then
            (case parse_plain cs of
               None \<Rightarrow> None
             | Some (x, y, z) \<Rightarrow>
                 Some ((x, y, z),
                       (if 0 < x then (x + 1, 0, 0)
                        else if 0 < y then (0, y + 1, 0) else (0, 0, z + 1))))
          else
            (case parse_version (if c = CHR ''='' then cs else r) of
               None \<Rightarrow> None
             | Some (x, y, z) \<Rightarrow> Some ((x, y, z), (x, y, z + 1))))"

definition is_loose :: "nat option \<Rightarrow> bool" where
  "is_loose opts = (case opts of None \<Rightarrow> False | Some i \<Rightarrow> i \<noteq> 0)"

definition strip_zeros :: "string \<Rightarrow> string" where
  "strip_zeros s = (case dropWhile (\<lambda>c. c = CHR ''0'') s of [] \<Rightarrow> ''0'' | t \<Rightarrow> t)"

definition strict_version :: "string \<Rightarrow> string option" where
  "strict_version s = (if parse_version s = None then None else Some (strip_v s))"

definition loose_version :: "string \<Rightarrow> string option" where
  "loose_version s =
     (case js_split CHR ''.'' (dropWhile (\<lambda>c. c = CHR ''v'' \<or> c = CHR ''='' \<or> is_space c) s) of
        [a, b, c] \<Rightarrow>
          if digits a \<and> digits b \<and> digits c
             \<and> safe_number (strip_zeros a) \<and> safe_number (strip_zeros b)
             \<and> safe_number (strip_zeros c)
          then Some (js_join ''.'' (map strip_zeros [a, b, c])) else None
      | _ \<Rightarrow> None)"

definition plain_semver :: semver where
  "plain_semver =
     \<lparr> clean = (\<lambda>v. let s = dropWhile (\<lambda>c. c = CHR ''='' \<or> c = CHR ''v'') (js_trim v)
                     in if parse_plain s = None then None else Some s),
       valid = (\<lambda>v opts. case v of
                   None \<Rightarrow> None
                 | Some s \<Rightarrow> if is_loose opts then loose_version s else strict_version s),
       validRange = (\<lambda>r. if parse_range r = None then None else Some r),
       satisfies = (\<lambda>r v. case parse_range r of
                       None \<Rightarrow> False
                     | Some (lo, hi) \<Rightarrow>
                         (case parse_version v of
                            None \<Rightarrow> False
                          | Some t \<Rightarrow> lo \<le> t \<and> t < hi)),
       compare = (\<lambda>a b. case parse_version a of
                     None \<Rightarrow> Inl (TypeError (version_error a))
                   | Some x \<Rightarrow>
                       (case parse_version b of
                          None \<Rightarrow> Inl (TypeError (version_error b))
                        | Some y \<Rightarrow> Inr (if x < y then - 1 else if x = y then 0 else 1))) \<rparr>"

text \<open>The precedence of a plain version string.\<close>

definition plain_key :: "string \<Rightarrow> nat \<times> nat \<times> nat" where
  "plain_key s = (case parse_version s of None \<Rightarrow> (0, 0, 0) | Some t \<Rightarrow> t)"

definition tagged :: "string \<Rightarrow> release" where
  "tagged t = \<lparr> tag_name = t, name = t \<rparr>"

definition no_host :: nodist where
  "no_host = \<lparr> getCurrentVersion = Inl (Error ''no version''),
               getMatchingNpmVersion = (\<lambda>v. Inl (Error ''no version'')) \<rparr>"

text \<open>
  A catalog whose first feed has three releases and whose second feed is empty; one
  with a release in the second feed; one whose first page has no version tag and whose
  second page has the tag \<open>v8.1.0\<close> only.
\<close>

definition three_releases :: remote where
  "three_releases =
     \<lparr> npm_releases = Inr [tagged ''1.0.0'', tagged ''2.0.0'', tagged ''2.5.3''],
       cli_releases = Inr [],
       cli_page = (\<lambda>page. Inr []) \<rparr>"

definition two_feeds :: remote where
  "two_feeds =
     \<lparr> npm_releases = Inr [tagged ''v6.14.18''],
       cli_releases = Inr [tagged ''v9.0.0'',
                           \<lparr> tag_name = ''arborist-v6.0.0'', name = ''arborist: v6.0.0'' \<rparr>],
       cli_page = (\<lambda>page. Inr []) \<rparr>"

definition two_pages :: remote where
  "two_pages =
     \<lparr> npm_releases = Inr [],
       cli_releases = Inr [],
       cli_page = (\<lambda>page. if page = 1 then Inr [tagged ''libnpmpublish-v7.0.0'']
                           else if page = 2 then Inr [tagged ''v8.1.0'']
                           else Inr []) \<rparr>"

text \<open>A catalog served in pages: no version tag on page 1, three on page 2.\<close>

definition release_pages :: "nat \<Rightarrow> release list" where
  "release_pages p =
     (if p = 1 then [tagged ''libnpmpublish-v7.0.0'']
      else if p = 2 then [tagged ''v8.1.0'', tagged ''v8.19.2'', tagged ''arborist-v6.0.0'',
                          tagged ''v8.3.0'']
      else [])"

definition paged :: remote where
  "paged = \<lparr> npm_releases = Inr [], cli_releases = Inr [],
             cli_page = (\<lambda>p. Inr (release_pages p)) \<rparr>"

text \<open>
  A catalog whose first page has a tag that passes the test and is not a version, and
  one whose first page has no version tag and whose further pages cannot be fetched.
\<close>

definition zero_padded :: remote where
  "zero_padded =
     \<lparr> npm_releases = Inr [], cli_releases = Inr [],
       cli_page = (\<lambda>p. if p = 1 then Inr [tagged ''v01.0.0'', tagged ''v2.0.0''] else Inr []) \<rparr>"

definition flaky :: remote where
  "flaky =
     \<lparr> npm_releases = Inr [], cli_releases = Inr [],
       cli_page = (\<lambda>p. if p = 1 then Inr [tagged ''libnpmpublish-v7.0.0'']
                        else Inl (SysError ''ETIMEDOUT'')) \<rparr>"

definition no_pages :: "nat \<Rightarrow> release list" where
  "no_pages p = [tagged ''libnpmpublish-v7.0.0'']"

definition unversioned :: remote where
  "unversioned = \<lparr> npm_releases = Inr [], cli_releases = Inr [],
                   cli_page = (\<lambda>p. Inr (no_pages p)) \<rparr>"

section \<open>The file system and the process state\<close>

text \<open>
  A path is the list of its segments, the drive first; the paths of the source are
  absolute (\<open>repoPath\<close> is \<open>path.resolve\<close>d). \<open>path.join(dir, s)\<close> splits \<open>s\<close> at
  \<open>/\<close> and at backslashes, drops empty and \<open>.\<close> segments and lets \<open>..\<close> remove the last
  segment, never the drive. \<open>path.resolve\<close> of such a path is the path itself.
\<close>

type_synonym path = "string list"

definition is_sep :: "char \<Rightarrow> bool" where
  "is_sep c = (c = CHR ''/'' \<or> c = backslash)"

fun split_path :: "string \<Rightarrow> string list" where
  "split_path [] = [[]]"
| "split_path (c # cs) =
     (if is_sep c then [] # split_path cs
      else (case split_path cs of [] \<Rightarrow> [[c]] | w # ws \<Rightarrow> (c # w) # ws))"

fun normalize :: "path \<Rightarrow> string list \<Rightarrow> path" where
  "normalize acc [] = acc"
| "normalize acc (seg # rest) =
     (if seg = [] \<or> seg = ''.'' then normalize acc rest
      else if seg = ''..'' then normalize (if length acc \<le> 1 then acc else butlast acc) rest
      else normalize (acc @ [seg]) rest)"

definition path_join :: "path \<Rightarrow> string \<Rightarrow> path" where
  "path_join dir s = normalize dir (split_path s)"

definition path_text :: "path \<Rightarrow> string" where
  "path_text p = js_join [backslash] p"

text \<open>
  The \<open>fs\<close> module and the libraries that work on the file system (\<open>mkdirp\<close>,
  \<open>rimraf\<close>, and the pipeline \<open>downloadFileStream(url).pipe(unzip).pipe(tar.x)\<close>,
  here \<open>fetch_archive\<close>) are the fields of a record over the type \<open>'fs\<close> of file-system
  states. A failure is an errno-style code; an operation that changes the file system
  returns the code, if it failed, and the state it leaves. \<open>readdir\<close> is the call
  with \<open>withFileTypes\<close>; \<open>symlink\<close> is the call with type \<open>junction\<close>.

  The pipeline ends in one of three ways. The source listens on the last stream, the
  one of \<open>tar.x\<close>, only: its \<open>end\<close> event resolves the promise, its \<open>error\<close> event
  rejects it, and an error of the download or of the unzip stream, which \<open>pipe\<close> does
  not pass on, does neither.
\<close>

datatype kind = IsFile | IsDirectory | IsSymbolicLink

datatype pipeline = Tar_end | Tar_error string | Upstream_error string

record dirent =
  d_name :: string
  d_kind :: kind

record 'fs node_fs =
  existsSync :: "'fs \<Rightarrow> path \<Rightarrow> bool"
  readdir :: "'fs \<Rightarrow> path \<Rightarrow> string + dirent list"
  readlink :: "'fs \<Rightarrow> path \<Rightarrow> string + string"
  unlink :: "path \<Rightarrow> 'fs \<Rightarrow> string option \<times> 'fs"
  symlink :: "string \<Rightarrow> path \<Rightarrow> 'fs \<Rightarrow> string option \<times> 'fs"
  rename :: "path \<Rightarrow> path \<Rightarrow> 'fs \<Rightarrow> string option \<times> 'fs"
  mkdirp :: "path \<Rightarrow> 'fs \<Rightarrow> string option \<times> 'fs"
  rimraf :: "path \<Rightarrow> 'fs \<Rightarrow> string option \<times> 'fs"
  fetch_archive :: "string \<Rightarrow> path \<Rightarrow> 'fs \<Rightarrow> pipeline \<times> 'fs"

text \<open>
  The state of the process: the file system, the URLs handed to
  \<open>downloadFileStream\<close>, the lines \<open>debug('Fix symlink for ', filePath, 'with target',
  linkTarget)\<close> written so far, and \<open>this.installedCache\<close>.
\<close>

record 'fs machine =
  files :: 'fs
  requests :: "string list"
  fix_log :: "(path \<times> string) list"
  installedCache :: "string list option"

section \<open>Repairing symbolic links\<close>

text \<open>
  \<open>Promise.all(dirPromises)\<close> followed by the \<open>reduce\<close>: the first rejection, or
  the sum of the counts added to \<open>fixedLinks\<close>.
\<close>

fun promise_all :: "(js_error + nat) list \<Rightarrow> nat \<Rightarrow> js_error + nat" where
  "promise_all [] fixedLinks = Inr fixedLinks"
| "promise_all (Inl e # rest) fixedLinks = Inl e"
| "promise_all (Inr num # rest) fixedLinks =
     bind_res (promise_all rest fixedLinks) (\<lambda>sum. Inr (sum + num))"

text \<open>
  The body of the branch \<open>if (file.isSymbolicLink())\<close>: read the target, write the
  debug line, delete the link, try to create the junction and, when that throws, move
  the directory \<open>path.join(dirPath, linkTarget)\<close> to the link's path. It returns the
  error that rejects the walk, if any, and the state it leaves.
\<close>

definition fix_symlink ::
    "'fs node_fs \<Rightarrow> path \<Rightarrow> path \<Rightarrow> 'fs machine \<Rightarrow> js_error option \<times> 'fs machine" where
  "fix_symlink pf dirPath filePath m =
     (case readlink pf (files m) filePath of
        Inl code \<Rightarrow> (Some (SysError code), m)
      | Inr linkTarget \<Rightarrow>
          let m1 = m\<lparr>fix_log := fix_log m @ [(filePath, linkTarget)]\<rparr> in
          (case unlink pf filePath (files m1) of
             (Some code, f2) \<Rightarrow> (Some (SysError code), m1\<lparr>files := f2\<rparr>)
           | (None, f2) \<Rightarrow>
               (case symlink pf linkTarget filePath f2 of
                  (None, f3) \<Rightarrow> (None, m1\<lparr>files := f3\<rparr>)
                | (Some e, f3) \<Rightarrow>
                    (case rename pf (path_join dirPath linkTarget) filePath f3 of
                       (Some code, f4) \<Rightarrow> (Some (SysError code), m1\<lparr>files := f4\<rparr>)
                     | (None, f4) \<Rightarrow> (None, m1\<lparr>files := f4\<rparr>)))))"

text \<open>
  \<open>resolveLinkedWorkspaces\<close>, with the loop over the directory entries as
  \<open>walk_entries\<close>. The call on a subdirectory is run when the loop reaches that entry
  and to its end before the loop goes on, and its outcome is kept in \<open>dirPromises\<close>;
  a rejection of it is only seen by \<open>Promise.all\<close>, after the loop, while a
  failure of the loop's own operations rejects at once. This is one schedule of the
  source, which starts the call on a subdirectory and goes on with the loop while that
  call runs: the two agree as long as no repair of the loop moves or deletes what a
  started call still has to read, and a link whose target lies inside the walked tree
  can make them differ. The recursion is bounded by \<open>fuel\<close>, one unit per directory
  level; \<open>None\<close> means the fuel ran out.
\<close>

fun resolveLinkedWorkspaces ::
    "nat \<Rightarrow> 'fs node_fs \<Rightarrow> path \<Rightarrow> 'fs machine \<Rightarrow> ((js_error + nat) \<times> 'fs machine) option"
  and walk_entries ::
    "nat \<Rightarrow> 'fs node_fs \<Rightarrow> path \<Rightarrow> dirent list \<Rightarrow> nat \<Rightarrow> (js_error + nat) list \<Rightarrow> 'fs machine
       \<Rightarrow> ((js_error + nat) \<times> 'fs machine) option" where
  "resolveLinkedWorkspaces 0 pf dirPath m = None"
| "resolveLinkedWorkspaces (Suc fuel) pf dirPath m =
     (case readdir pf (files m) dirPath of
        Inl code \<Rightarrow> Some (Inl (SysError code), m)
      | Inr entries \<Rightarrow> walk_entries fuel pf dirPath entries 0 [] m)"
| "walk_entries fuel pf dirPath [] fixedLinks dirPromises m =
     Some (promise_all dirPromises fixedLinks, m)"
| "walk_entries fuel pf dirPath (file # rest) fixedLinks dirPromises m =
     (if d_kind file = IsSymbolicLink then
        (case fix_symlink pf dirPath (path_join dirPath (d_name file)) m of
           (Some e, m') \<Rightarrow> Some (Inl e, m')
         | (None, m') \<Rightarrow> walk_entries fuel pf dirPath rest (fixedLinks + 1) dirPromises m')
      else if d_kind file = IsDirectory then
        (case resolveLinkedWorkspaces fuel pf (path_join dirPath (d_name file)) m of
           None \<Rightarrow> None
         | Some (r, m') \<Rightarrow> walk_entries fuel pf dirPath rest fixedLinks (dirPromises @ [r]) m')
      else walk_entries fuel pf dirPath rest fixedLinks dirPromises m)"

text \<open>What the settled promises of \<open>dirPromises\<close> add to the count.\<close>

fun counted :: "(js_error + nat) list \<Rightarrow> nat" where
  "counted [] = 0"
| "counted (Inl e # rs) = counted rs"
| "counted (Inr n # rs) = n + counted rs"

section \<open>install, remove, listInstalled\<close>

text \<open>
  \<open>done\<close> is called with an error or with \<open>(null, version)\<close>; \<open>Unhandled\<close> also
  stands for an exception that leaves the function before \<open>done\<close> is called
  (\<open>path.join\<close> throws a \<open>TypeError\<close> when \<open>version\<close> is \<open>null\<close>). In
  \<open>install\<close>, when the download or the unzip stream fails the promise of the
  extraction is never settled and \<open>done\<close> is not called.
\<close>

definition not_a_string :: js_error where
  "not_a_string = TypeError ''The path argument must be of type string. Received null''"

definition remove ::
    "semver \<Rightarrow> 'fs node_fs \<Rightarrow> path \<Rightarrow> string \<Rightarrow> 'fs machine \<Rightarrow> done_result \<times> 'fs machine" where
  "remove sv pf repoPath v m =
     (let version = clean sv v in
      if \<not> truthy (valid sv version None) then (Done_error (Error ''Invalid version''), m)
      else
        (case version of
           None \<Rightarrow> (Unhandled not_a_string, m)
         | Some version \<Rightarrow>
             let archivePath = path_join repoPath version in
             if \<not> existsSync pf (files m) archivePath then (Done version, m)
             else
               (case rimraf pf archivePath (files m) of
                  (None, f) \<Rightarrow> (Done version, m\<lparr>files := f\<rparr>)
                | (Some code, f) \<Rightarrow> (Done_error (SysError code), m\<lparr>files := f\<rparr>))))"

definition install ::
    "nat \<Rightarrow> semver \<Rightarrow> 'fs node_fs \<Rightarrow> path \<Rightarrow> string \<Rightarrow> 'fs machine
       \<Rightarrow> (done_result \<times> 'fs machine) option" where
  "install fuel sv pf repoPath v m =
     (let version = clean sv v in
      if \<not> truthy (valid sv version None) then Some (Done_error (Error ''Invalid version''), m)
      else
        (case version of
           None \<Rightarrow> Some (Unhandled not_a_string, m)
         | Some version \<Rightarrow>
             let archivePath = path_join repoPath version in
             if existsSync pf (files m) archivePath then Some (Done version, m)
             else
               (case mkdirp pf archivePath (files m) of
                  (Some code, f1) \<Rightarrow> Some (Done_error (SysError code), m\<lparr>files := f1\<rparr>)
                | (None, f1) \<Rightarrow>
                    let downloadLink = downloadUrl version;
                        m1 = m\<lparr>files := f1, requests := requests m @ [downloadLink]\<rparr>
                    in
                    (case fetch_archive pf downloadLink archivePath (files m1) of
                       (Upstream_error code, f2) \<Rightarrow> Some (Not_called, m1\<lparr>files := f2\<rparr>)
                     | (Tar_error code, f2) \<Rightarrow>
                         Some (Done_error (SysError code), m1\<lparr>files := f2\<rparr>)
                     | (Tar_end, f2) \<Rightarrow>
                         let m2 = m1\<lparr>files := f2\<rparr> in
                         (case gte sv version ''8.0.0'' of
                            Inl e \<Rightarrow> Some (Done_error e, m2)
                          | Inr False \<Rightarrow> Some (Done version, m2)
                          | Inr True \<Rightarrow>
                              (case resolveLinkedWorkspaces fuel pf
                                      (path_join archivePath ''node_modules'') m2 of
                                 None \<Rightarrow> None
                               | Some (Inl e, m3) \<Rightarrow> Some (Done_error e, m3)
                               | Some (Inr fixedLinks, m3) \<Rightarrow> Some (Done version, m3)))))))"

text \<open>
  Modelled from the spec: \<open>vermanager.compareable\<close> of \<open>lib/versions.js\<close>, which is
  not among the sources; the spec calls it "a custom comparable projection of semantic
  version". It is the parameter \<open>compareable\<close>, into any linear order.

  \<open>ls.filter(semver.valid)\<close> calls \<open>semver.valid(entry, index, ls)\<close>: the index is
  the library function's second argument. The comparator returns \<open>1\<close> or \<open>-1\<close>,
  never \<open>0\<close>. The error of a failed \<open>readdir\<close> is an object with a message.
\<close>

definition installed_order :: "(string \<Rightarrow> 'k::linorder) \<Rightarrow> string \<Rightarrow> string \<Rightarrow> js_error + int" where
  "installed_order compareable v1 v2 = Inr (if compareable v1 > compareable v2 then 1 else - 1)"

definition filter_valid :: "semver \<Rightarrow> string list \<Rightarrow> string list" where
  "filter_valid sv ls =
     map fst (filter (\<lambda>(entry, index). truthy (valid sv (Some entry) (Some index)))
                (zip ls [0 ..< length ls]))"

definition listInstalled ::
    "semver \<Rightarrow> 'fs node_fs \<Rightarrow> (string \<Rightarrow> 'k::linorder) \<Rightarrow> path \<Rightarrow> 'fs machine
       \<Rightarrow> (js_error + string list) \<times> 'fs machine" where
  "listInstalled sv pf compareable repoPath m =
     (case installedCache m of
        Some cache \<Rightarrow> (Inr cache, m)
      | None \<Rightarrow>
          (case readdir pf (files m) repoPath of
             Inl code \<Rightarrow>
               (Inl (Error (''Reading the version directory '' @ path_text repoPath
                             @ '' failed: '' @ code)), m)
           | Inr entries \<Rightarrow>
               (case js_sort (installed_order compareable)
                       (filter_valid sv (map d_name entries)) of
                  Inl e \<Rightarrow> (Inl e, m)
                | Inr ls \<Rightarrow> (Inr ls, m\<lparr>installedCache := Some ls\<rparr>))))"

section \<open>A file system as a table\<close>

text \<open>
  A concrete file system: a table from paths to nodes, in the order in which a
  directory lists its entries. A link is not followed when a path is looked up. A
  junction is listed as a symbolic link. \<open>rename\<close> moves a whole subtree and refuses an
  existing destination. The platform either supports junctions or answers \<open>EPERM\<close>;
  \<open>rimraf\<close> fails with \<open>EBUSY\<close> on a tree holding a path of \<open>locked\<close>, and then
  leaves the locked paths and the directories above them and has deleted the rest of
  the tree; the archive behind a URL is a list of paths relative to the directory it is
  unpacked in, and a URL with no archive behind it is a download that fails.
\<close>

datatype node = File string | Dir | Symlink string | Junction string

type_synonym table = "(path \<times> node) list"

fun kind_of :: "node \<Rightarrow> kind" where
  "kind_of (File c) = IsFile"
| "kind_of Dir = IsDirectory"
| "kind_of (Symlink t) = IsSymbolicLink"
| "kind_of (Junction t) = IsSymbolicLink"

definition below :: "path \<Rightarrow> path \<Rightarrow> bool" where
  "below p q = (take (length p) q = p)"

definition child_of :: "path \<Rightarrow> path \<Rightarrow> bool" where
  "child_of p q = (q \<noteq> [] \<and> butlast q = p)"

definition table_readdir :: "table \<Rightarrow> path \<Rightarrow> string + dirent list" where
  "table_readdir t p =
     (case map_of t p of
        None \<Rightarrow> Inl ''ENOENT''
      | Some Dir \<Rightarrow>
          Inr (map (\<lambda>(q, n). \<lparr> d_name = last q, d_kind = kind_of n \<rparr>)
                 (filter (\<lambda>(q, n). child_of p q) t))
      | Some other \<Rightarrow> Inl ''ENOTDIR'')"

definition table_readlink :: "table \<Rightarrow> path \<Rightarrow> string + string" where
  "table_readlink t p =
     (case map_of t p of
        None \<Rightarrow> Inl ''ENOENT''
      | Some (Symlink target) \<Rightarrow> Inr target
      | Some (Junction target) \<Rightarrow> Inr target
      | Some other \<Rightarrow> Inl ''EINVAL'')"

definition table_unlink :: "path \<Rightarrow> table \<Rightarrow> string option \<times> table" where
  "table_unlink p t =
     (case map_of t p of
        None \<Rightarrow> (Some ''ENOENT'', t)
      | Some Dir \<Rightarrow> (Some ''EPERM'', t)
      | Some other \<Rightarrow> (None, filter (\<lambda>(q, n). q \<noteq> p) t))"

definition table_symlink :: "bool \<Rightarrow> string \<Rightarrow> path \<Rightarrow> table \<Rightarrow> string option \<times> table" where
  "table_symlink junctions target p t =
     (if \<not> junctions then (Some ''EPERM'', t)
      else if map_of t p \<noteq> None then (Some ''EEXIST'', t)
      else if map_of t (butlast p) \<noteq> Some Dir then (Some ''ENOENT'', t)
      else (None, t @ [(p, Junction target)]))"

definition table_rename :: "path \<Rightarrow> path \<Rightarrow> table \<Rightarrow> string option \<times> table" where
  "table_rename src dst t =
     (if map_of t src = None then (Some ''ENOENT'', t)
      else if src = dst then (None, t)
      else if below src dst then (Some ''EINVAL'', t)
      else if map_of t dst \<noteq> None then (Some ''EEXIST'', t)
      else if map_of t (butlast dst) \<noteq> Some Dir then (Some ''ENOENT'', t)
      else (None, map (\<lambda>(q, n). if below src q then (dst @ drop (length src) q, n) else (q, n)) t))"

fun table_mkdirp_from :: "path \<Rightarrow> string list \<Rightarrow> table \<Rightarrow> string option \<times> table" where
  "table_mkdirp_from pre [] t = (None, t)"
| "table_mkdirp_from pre (s # rest) t =
     (case map_of t (pre @ [s]) of
        None \<Rightarrow> table_mkdirp_from (pre @ [s]) rest (t @ [(pre @ [s], Dir)])
      | Some Dir \<Rightarrow> table_mkdirp_from (pre @ [s]) rest t
      | Some other \<Rightarrow> (Some ''EEXIST'', t))"

definition table_rimraf :: "path list \<Rightarrow> path \<Rightarrow> table \<Rightarrow> string option \<times> table" where
  "table_rimraf locked p t =
     (if \<exists>q \<in> set locked. below p q \<and> map_of t q \<noteq> None then
        (Some ''EBUSY'',
         filter (\<lambda>(q, n). \<not> below p q \<or> (\<exists>l \<in> set locked. below q l \<and> map_of t l \<noteq> None)) t)
      else (None, filter (\<lambda>(q, n). \<not> below p q) t))"

definition table_fetch ::
    "(string \<Rightarrow> table option) \<Rightarrow> string \<Rightarrow> path \<Rightarrow> table \<Rightarrow> pipeline \<times> table" where
  "table_fetch archives url p t =
     (case archives url of
        None \<Rightarrow> (Upstream_error ''ENOTFOUND'', t)
      | Some content \<Rightarrow> (Tar_end, t @ map (\<lambda>(rel, n). (p @ rel, n)) content))"

definition table_fs :: "bool \<Rightarrow> path list \<Rightarrow> (string \<Rightarrow> table option) \<Rightarrow> table node_fs" where
  "table_fs junctions locked archives =
     \<lparr> existsSync = (\<lambda>t p. map_of t p \<noteq> None),
       readdir = table_readdir,
       readlink = table_readlink,
       unlink = table_unlink,
       symlink = table_symlink junctions,
       rename = table_rename,
       mkdirp = table_mkdirp_from [],
       rimraf = table_rimraf locked,
       fetch_archive = table_fetch archives \<rparr>"

definition start :: "'fs \<Rightarrow> 'fs machine" where
  "start f = \<lparr> files = f, requests = [], fix_log = [], installedCache = None \<rparr>"

text \<open>
  A disk with an empty install repository \<open>C:, nodist, npmv\<close>, and the archive of a
  release whose \<open>node_modules\<close> holds one symbolic link into \<open>workspaces\<close>, as the
  releases of npm from version 8 on do.
\<close>

definition repo :: path where
  "repo = [''C:'', ''nodist'', ''npmv'']"

definition empty_repo :: table where
  "empty_repo = [([''C:''], Dir), ([''C:'', ''nodist''], Dir), ([''C:'', ''nodist'', ''npmv''], Dir)]"

definition npm_archive :: table where
  "npm_archive =
     [([''package.json''], File ''{}''),
      ([''node_modules''], Dir),
      ([''node_modules'', ''semver''], Dir),
      ([''node_modules'', ''semver'', ''index.js''], File ''''),
      ([''node_modules'', ''@npmcli''], Dir),
      ([''node_modules'', ''@npmcli'', ''arborist''], Symlink ''../../workspaces/arborist''),
      ([''workspaces''], Dir),
      ([''workspaces'', ''arborist''], Dir),
      ([''workspaces'', ''arborist'', ''package.json''], File ''{}'')]"

definition archives :: "string \<Rightarrow> table option" where
  "archives url =
     (if url = ''https://codeload.github.com/npm/cli/tar.gz/v9.1.0'' then Some npm_archive
      else None)"

definition windows :: "table node_fs" where
  "windows = table_fs False [] archives"

definition busy_windows :: "table node_fs" where
  "busy_windows = table_fs False [[''C:'', ''nodist'', ''npmv'', ''9.1.0'', ''package.json'']] archives"

definition installed_9_1_0 :: table where
  "installed_9_1_0 =
     empty_repo @
     [([''C:'', ''nodist'', ''npmv'', ''9.1.0''], Dir),
      ([''C:'', ''nodist'', ''npmv'', ''9.1.0'', ''package.json''], File ''{}''),
      ([''C:'', ''nodist'', ''npmv'', ''9.1.0'', ''node_modules''], Dir),
      ([''C:'', ''nodist'', ''npmv'', ''9.1.0'', ''node_modules'', ''semver''], Dir),
      ([''C:'', ''nodist'', ''npmv'', ''9.1.0'', ''node_modules'', ''semver'', ''index.js''], File ''''),
      ([''C:'', ''nodist'', ''npmv'', ''9.1.0'', ''node_modules'', ''@npmcli''], Dir),
      ([''C:'', ''nodist'', ''npmv'', ''9.1.0'', ''workspaces''], Dir),
      ([''C:'', ''nodist'', ''npmv'', ''9.1.0'', ''node_modules'', ''@npmcli'', ''arborist''], Dir),
      ([''C:'', ''nodist'', ''npmv'', ''9.1.0'', ''node_modules'', ''@npmcli'', ''arborist'',
        ''package.json''], File ''{}'')]"

definition after_install :: "table machine" where
  "after_install =
     \<lparr> files = installed_9_1_0,
       requests = [''https://codeload.github.com/npm/cli/tar.gz/v9.1.0''],
       fix_log = [([''C:'', ''nodist'', ''npmv'', ''9.1.0'', ''node_modules'', ''@npmcli'', ''arborist''],
                   ''../../workspaces/arborist'')],
       installedCache = None \<rparr>"

text \<open>
  What a removal of 9.1.0 leaves of that disk when \<open>package.json\<close> of 9.1.0 is
  locked.
\<close>

definition busy_left :: table where
  "busy_left =
     empty_repo @
     [([''C:'', ''nodist'', ''npmv'', ''9.1.0''], Dir),
      ([''C:'', ''nodist'', ''npmv'', ''9.1.0'', ''package.json''], File ''{}'')]"

text \<open>An install repository with three versions and a stray file, in listing order.\<close>

definition listed_repo :: table where
  "listed_repo =
     empty_repo @
     [([''C:'', ''nodist'', ''npmv'', ''README''], File ''versions''),
      ([''C:'', ''nodist'', ''npmv'', ''10.2.0''], Dir),
      ([''C:'', ''nodist'', ''npmv'', ''9.1.0''], Dir),
      ([''C:'', ''nodist'', ''npmv'', ''2.5.3''], Dir)]"

definition listed_entries :: "dirent list" where
  "listed_entries =
     [\<lparr> d_name = ''README'', d_kind = IsFile \<rparr>, \<lparr> d_name = ''10.2.0'', d_kind = IsDirectory \<rparr>,
      \<lparr> d_name = ''9.1.0'', d_kind = IsDirectory \<rparr>, \<lparr> d_name = ''2.5.3'', d_kind = IsDirectory \<rparr>]"

text \<open>
  An install repository with a directory \<open>01.0.0\<close>, listed before the directory
  \<open>2.0.0\<close> and listed after it.
\<close>

definition stray_first :: table where
  "stray_first =
     empty_repo @
     [([''C:'', ''nodist'', ''npmv'', ''01.0.0''], Dir),
      ([''C:'', ''nodist'', ''npmv'', ''2.0.0''], Dir)]"

definition stray_second :: table where
  "stray_second =
     empty_repo @
     [([''C:'', ''nodist'', ''npmv'', ''2.0.0''], Dir),
      ([''C:'', ''nodist'', ''npmv'', ''01.0.0''], Dir)]"

section \<open>Trees with one symbolic link\<close>

text \<open>
  A name that \<open>path.join\<close> appends as one segment. A table is well formed below
  \<open>root\<close> when \<open>root\<close> is a directory and every entry below it has such a name and a
  directory as its parent. \<open>only_link\<close> says that the entry at \<open>lp\<close>, below
  \<open>root\<close>, is a symbolic link with target text \<open>tgt\<close> and that no other entry below
  \<open>root\<close> is a link. \<open>relocate src lp t\<close> is the table \<open>t\<close> without the entry
  \<open>lp\<close> and with the subtree at \<open>src\<close> moved to \<open>lp\<close>.
\<close>

definition plain_name :: "string \<Rightarrow> bool" where
  "plain_name s = (s \<noteq> [] \<and> s \<noteq> ''.'' \<and> s \<noteq> ''..'' \<and> (\<forall>c \<in> set s. \<not> is_sep c))"

definition well_formed :: "table \<Rightarrow> path \<Rightarrow> bool" where
  "well_formed t root =
     (map_of t root = Some Dir \<and>
      (\<forall>(p, n) \<in> set t. below root p \<and> p \<noteq> root \<longrightarrow>
          plain_name (last p) \<and> map_of t (butlast p) = Some Dir))"

definition only_link :: "table \<Rightarrow> path \<Rightarrow> path \<Rightarrow> string \<Rightarrow> bool" where
  "only_link t root lp tgt =
     (below root lp \<and> lp \<noteq> root \<and> map_of t lp = Some (Symlink tgt) \<and>
      (\<forall>(p, n) \<in> set t. below root p \<and> p \<noteq> lp \<longrightarrow> kind_of n \<noteq> IsSymbolicLink))"

definition relocate :: "path \<Rightarrow> path \<Rightarrow> table \<Rightarrow> table" where
  "relocate src lp t =
     map (\<lambda>(q, n). if below src q then (lp @ drop (length src) q, n) else (q, n))
       (filter (\<lambda>(q, n). q \<noteq> lp) t)"

text \<open>
  The trees the repair is proved on: the table has one entry per path, is well formed
  below \<open>root\<close>, has its only link at \<open>lp\<close>, and the directory \<open>src\<close> the link
  points to, \<open>path.join\<close> of the link's directory and its target text, exists and
  lies outside the tree below \<open>root\<close> (neither below \<open>root\<close> nor above it).
\<close>

definition repairable :: "table \<Rightarrow> path \<Rightarrow> path \<Rightarrow> string \<Rightarrow> path \<Rightarrow> bool" where
  "repairable t root lp tgt src =
     (distinct (map fst t) \<and> well_formed t root \<and> only_link t root lp tgt \<and>
      src = path_join (butlast lp) tgt \<and> map_of t src = Some Dir \<and>
      \<not> below root src \<and> \<not> below src root)"

text \<open>
  For the proofs: the entry a table lists for a path, the entries of a directory, a
  subtree without links, an entry whose walk changes nothing, and the number of
  directories among some entries.
\<close>

definition entry_of :: "path \<times> node \<Rightarrow> dirent" where
  "entry_of e = \<lparr> d_name = last (fst e), d_kind = kind_of (snd e) \<rparr>"

definition listed :: "table \<Rightarrow> path \<Rightarrow> table" where
  "listed t q = filter (\<lambda>e. child_of q (fst e)) t"

definition plain_below :: "table \<Rightarrow> path \<Rightarrow> bool" where
  "plain_below t q =
     (map_of t q = Some Dir \<and>
      (\<forall>(p, n) \<in> set t. below q p \<and> p \<noteq> q \<longrightarrow>
          plain_name (last p) \<and> map_of t (butlast p) = Some Dir \<and> kind_of n \<noteq> IsSymbolicLink))"

definition quiet :: "nat \<Rightarrow> 'fs node_fs \<Rightarrow> path \<Rightarrow> 'fs machine \<Rightarrow> dirent \<Rightarrow> bool" where
  "quiet fuel pf dirPath m e =
     (d_kind e = IsFile \<or>
      (d_kind e = IsDirectory \<and>
       resolveLinkedWorkspaces fuel pf (path_join dirPath (d_name e)) m = Some (Inr 0, m)))"

definition dirs :: "dirent list \<Rightarrow> nat" where
  "dirs es = length (filter (\<lambda>e. d_kind e = IsDirectory) es)"

text \<open>
  A directory \<open>C:, t\<close> listing the link \<open>a\<close>, with target \<open>b\<close>, before the directory
  \<open>b\<close>; and the release 9.1.0 as unpacked, before its links are repaired.
\<close>

definition link_first :: table where
  "link_first =
     [([''C:''], Dir), ([''C:'', ''t''], Dir),
      ([''C:'', ''t'', ''a''], Symlink ''b''),
      ([''C:'', ''t'', ''b''], Dir),
      ([''C:'', ''t'', ''b'', ''index.js''], File '''')]"

definition link_first_after :: table where
  "link_first_after =
     [([''C:''], Dir), ([''C:'', ''t''], Dir),
      ([''C:'', ''t'', ''a''], Dir),
      ([''C:'', ''t'', ''a'', ''index.js''], File '''')]"

definition unpacked_9_1_0 :: table where
  "unpacked_9_1_0 =
     empty_repo @
     [([''C:'', ''nodist'', ''npmv'', ''9.1.0''], Dir),
      ([''C:'', ''nodist'', ''npmv'', ''9.1.0'', ''package.json''], File ''{}''),
      ([''C:'', ''nodist'', ''npmv'', ''9.1.0'', ''node_modules''], Dir),
      ([''C:'', ''nodist'', ''npmv'', ''9.1.0'', ''node_modules'', ''semver''], Dir),
      ([''C:'', ''nodist'', ''npmv'', ''9.1.0'', ''node_modules'', ''semver'', ''index.js''], File ''''),
      ([''C:'', ''nodist'', ''npmv'', ''9.1.0'', ''node_modules'', ''@npmcli''], Dir),
      ([''C:'', ''nodist'', ''npmv'', ''9.1.0'', ''node_modules'', ''@npmcli'', ''arborist''],
       Symlink ''../../workspaces/arborist''),
      ([''C:'', ''nodist'', ''npmv'', ''9.1.0'', ''workspaces''], Dir),
      ([''C:'', ''nodist'', ''npmv'', ''9.1.0'', ''workspaces'', ''arborist''], Dir),
      ([''C:'', ''nodist'', ''npmv'', ''9.1.0'', ''workspaces'', ''arborist'', ''package.json''],
       File ''{}'')]"

definition modules :: path where
  "modules = [''C:'', ''nodist'', ''npmv'', ''9.1.0'', ''node_modules'']"

definition arborist_link :: path where
  "arborist_link = [''C:'', ''nodist'', ''npmv'', ''9.1.0'', ''node_modules'', ''@npmcli'', ''arborist'']"

definition arborist_dir :: path where
  "arborist_dir = [''C:'', ''nodist'', ''npmv'', ''9.1.0'', ''workspaces'', ''arborist'']"

section \<open>Properties of the download URL\<close>

text \<open>
  C9: \<open>downloadUrl version\<close> is the template followed by \<open>version\<close> with only its
  leading \<open>v\<close> stripped. The source removes the first \<open>v\<close> wherever it stands: for
  the version \<open>1.0.0-dev\<close>, which has no leading \<open>v\<close>, the URL ends in
  \<open>v1.0.0-de\<close>.
\<close>

theorem downloadUrl_drops_inner_v:
  "downloadUrl ''1.0.0-dev'' = ''https://codeload.github.com/npm/cli/tar.gz/v1.0.0-de''"
  by (simp add: downloadUrl_def js_replace_def)

section \<open>Properties of the local version search\<close>

declare search.simps [simp del]

lemma search_Nil: "search readFile [] = No_arguments"
  by (simp add: search.simps)

lemma search_snoc:
  "search readFile (xs @ [x]) =
     (case readFile (version_file (xs @ [x])) of
        Inl er \<Rightarrow> search readFile xs
      | Inr version \<Rightarrow> Found (js_trim version) (version_file (xs @ [x])))"
  by (subst search.simps) (simp add: version_file_def Let_def split: sum.splits)

lemma search_skip:
  "k \<le> length dirArray \<Longrightarrow>
   \<forall>j. k < j \<and> j \<le> length dirArray \<longrightarrow> isl (readFile (version_file (take j dirArray))) \<Longrightarrow>
   search readFile dirArray = search readFile (take k dirArray)"
proof (induction dirArray rule: rev_induct)
  case Nil
  then show ?case by simp
next
  case (snoc x xs)
  show ?case
  proof (cases "k = length (xs @ [x])")
    case True
    then show ?thesis by simp
  next
    case False
    with snoc.prems have k: "k \<le> length xs" by simp
    from snoc.prems(2) k have "isl (readFile (version_file (take (Suc (length xs)) (xs @ [x]))))"
      by (metis Suc_leI le_imp_less_Suc length_append_singleton order_refl)
    then have top: "isl (readFile (version_file (xs @ [x])))" by simp
    have "\<forall>j. k < j \<and> j \<le> length xs \<longrightarrow> isl (readFile (version_file (take j xs)))"
    proof (intro allI impI)
      fix j assume j: "k < j \<and> j \<le> length xs"
      then have "k < j \<and> j \<le> length (xs @ [x])" by simp
      with snoc.prems(2) have "isl (readFile (version_file (take j (xs @ [x]))))" by blast
      with j show "isl (readFile (version_file (take j xs)))" by simp
    qed
    with snoc.IH k have "search readFile xs = search readFile (take k xs)" by blast
    with top k show ?thesis
      by (auto simp: search_snoc isl_def split: sum.splits)
  qed
qed

text \<open>
  C7: \<open>getLocal\<close> searches upward from the working directory, one path segment at
  a time; the segments are those of the working directory between its separators, the
  backslashes of a Windows path. With \<open>dirArray\<close> the working directory split
  there, \<open>getLocal\<close> tries the file under the whole path first and then under each
  shorter prefix. If the file under the first \<open>k\<close> segments can be read and the file
  under every longer prefix cannot, the callback gets the trimmed content of that file
  and its path; if no prefix has a readable file, the callback gets no arguments (and no
  error).
\<close>

theorem getLocal_upward_search:
  "(0 < k \<and> k \<le> length (js_split backslash cwd) \<and>
    readFile (version_file (take k (js_split backslash cwd))) = Inr content \<and>
    (\<forall>j. k < j \<and> j \<le> length (js_split backslash cwd) \<longrightarrow>
         isl (readFile (version_file (take j (js_split backslash cwd)))))
    \<longrightarrow> getLocal readFile cwd =
          Found (js_trim content) (version_file (take k (js_split backslash cwd))))
   \<and>
   ((\<forall>j. 0 < j \<and> j \<le> length (js_split backslash cwd) \<longrightarrow>
         isl (readFile (version_file (take j (js_split backslash cwd)))))
    \<longrightarrow> getLocal readFile cwd = No_arguments)"
proof (intro conjI impI)
  let ?d = "js_split backslash cwd"
  assume h: "0 < k \<and> k \<le> length ?d \<and> readFile (version_file (take k ?d)) = Inr content \<and>
    (\<forall>j. k < j \<and> j \<le> length ?d \<longrightarrow> isl (readFile (version_file (take j ?d))))"
  then have "search readFile ?d = search readFile (take k ?d)"
    using search_skip [of k ?d readFile] by blast
  moreover from h have "take k ?d \<noteq> []" by auto
  then obtain ys y where ys: "take k ?d = ys @ [y]"
    by (cases "take k ?d" rule: rev_cases) auto
  ultimately show "getLocal readFile cwd = Found (js_trim content) (version_file (take k ?d))"
    using h ys by (simp add: getLocal_def search_snoc)
next
  let ?d = "js_split backslash cwd"
  assume "\<forall>j. 0 < j \<and> j \<le> length ?d \<longrightarrow> isl (readFile (version_file (take j ?d)))"
  then have "search readFile ?d = search readFile (take 0 ?d)"
    using search_skip [of 0 ?d readFile] by blast
  then show "getLocal readFile cwd = No_arguments"
    by (simp add: getLocal_def search_Nil)
qed

text \<open>
  From \<open>C:\\a\\b\\c\<close> with the file at \<open>C:\\a\<close> only, the search returns its
  trimmed content and path; from \<open>D:\\a\<close>, where there is none, it reports absence.
\<close>

theorem getLocal_upward_search_witness:
  "getLocal win_files (win_path [''C:'', ''a'', ''b'', ''c'']) =
     Found ''8.1.0'' (win_path [''C:'', ''a'', ''.npm-version'']) \<and>
   getLocal win_files (win_path [''D:'', ''a'']) = No_arguments"
proof
  have s: "js_split backslash (win_path [''C:'', ''a'', ''b'', ''c'']) = [''C:'', ''a'', ''b'', ''c'']"
    by (simp add: win_path_def backslash_def)
  have a: "\<forall>j. 2 < j \<and> j \<le> 4 \<longrightarrow> isl (win_files (version_file (take j [''C:'', ''a'', ''b'', ''c''])))"
  proof (intro allI impI)
    fix j :: nat assume "2 < j \<and> j \<le> 4"
    then have "j = 3 \<or> j = 4" by arith
    then show "isl (win_files (version_file (take j [''C:'', ''a'', ''b'', ''c''])))"
      by (auto simp: win_files_def version_file_def win_path_def backslash_def)
  qed
  have b: "win_files (version_file (take 2 [''C:'', ''a'', ''b'', ''c''])) = Inr '' 8.1.0 ''"
    by (simp add: win_files_def version_file_def win_path_def backslash_def)
  from getLocal_upward_search [of 2 "win_path [''C:'', ''a'', ''b'', ''c'']" win_files "'' 8.1.0 ''"] s a b
  have "getLocal win_files (win_path [''C:'', ''a'', ''b'', ''c'']) =
     Found (js_trim '' 8.1.0 '') (version_file (take 2 [''C:'', ''a'', ''b'', ''c'']))" by simp
  then show "getLocal win_files (win_path [''C:'', ''a'', ''b'', ''c'']) =
     Found ''8.1.0'' (win_path [''C:'', ''a'', ''.npm-version''])"
    by (simp add: js_trim_def is_space_def version_file_def win_path_def)
next
  have s: "js_split backslash (win_path [''D:'', ''a'']) = [''D:'', ''a'']"
    by (simp add: win_path_def backslash_def)
  have a: "\<forall>j. 0 < j \<and> j \<le> 2 \<longrightarrow> isl (win_files (version_file (take j [''D:'', ''a''])))"
  proof (intro allI impI)
    fix j :: nat assume "0 < j \<and> j \<le> 2"
    then have "j = 1 \<or> j = 2" by arith
    then show "isl (win_files (version_file (take j [''D:'', ''a''])))"
      by (auto simp: win_files_def version_file_def win_path_def backslash_def)
  qed
  from getLocal_upward_search [of _ "win_path [''D:'', ''a'']" win_files] s a
  show "getLocal win_files (win_path [''D:'', ''a'']) = No_arguments" by simp
qed

section \<open>Properties of the remote catalog\<close>

subsection \<open>Results as sums\<close>

lemma bind_res_Inr [simp]: "bind_res (Inr x) f = f x"
  by (simp add: bind_res_def)

lemma bind_res_Inl [simp]: "bind_res (Inl e) f = Inl e"
  by (simp add: bind_res_def)

lemma bind_res_eq_Inr:
  "bind_res r f = Inr y \<longleftrightarrow> (\<exists>x. r = Inr x \<and> f x = Inr y)"
  by (cases r) simp_all

subsection \<open>filter and sort\<close>

lemma js_filter_Inr:
  "js_filter p xs = Inr r \<Longrightarrow> r = filter (\<lambda>x. p x = Inr True) xs"
proof (induction xs arbitrary: r)
  case Nil
  then show ?case by simp
next
  case (Cons x xs)
  from Cons.prems obtain b r' where b: "p x = Inr b" and r': "js_filter p xs = Inr r'"
    and r: "r = (if b then x # r' else r')"
    by (auto simp: bind_res_eq_Inr)
  from Cons.IH [OF r'] b r show ?case by auto
qed

lemma js_insert_length:
  "js_insert cmp x ys = Inr r \<Longrightarrow> length r = Suc (length ys)"
  by (induction ys arbitrary: r) (auto simp: bind_res_eq_Inr split: if_splits)

lemma js_sort_length: "js_sort cmp xs = Inr r \<Longrightarrow> length r = length xs"
  by (induction xs arbitrary: r) (auto simp: bind_res_eq_Inr dest: js_insert_length)

lemma ordered_by_subset: "ordered_by sv key S \<Longrightarrow> T \<subseteq> S \<Longrightarrow> ordered_by sv key T"
  unfolding ordered_by_def by blast

lemma js_insert_insort:
  "ordered_by sv key (insert x (set ys)) \<Longrightarrow>
   js_insert (compare sv) x ys = Inr (insort_key key x ys)"
proof (induction ys)
  case Nil
  then show ?case by simp
next
  case (Cons y ys)
  have c: "compare sv x y = Inr (if key x < key y then - 1 else if key x = key y then 0 else 1)"
    using Cons.prems by (simp add: ordered_by_def)
  have "ordered_by sv key (insert x (set ys))"
    using Cons.prems by (rule ordered_by_subset) auto
  with Cons.IH have "js_insert (compare sv) x ys = Inr (insort_key key x ys)" .
  with c show ?case by auto
qed

lemma js_sort_sort_key:
  "ordered_by sv key (set xs) \<Longrightarrow> js_sort (compare sv) xs = Inr (sort_key key xs)"
proof (induction xs)
  case Nil
  then show ?case by simp
next
  case (Cons x xs)
  have "ordered_by sv key (set xs)"
    using Cons.prems by (rule ordered_by_subset) auto
  with Cons.IH have s: "js_sort (compare sv) xs = Inr (sort_key key xs)" .
  have "ordered_by sv key (insert x (set (sort_key key xs)))"
    using Cons.prems by simp
  then show ?case using s by (simp add: js_insert_insort)
qed

lemma last_sort_key_max:
  assumes "xs \<noteq> []"
  shows "last (sort_key key xs) \<in> set xs \<and> (\<forall>x \<in> set xs. key x \<le> key (last (sort_key key xs)))"
proof -
  let ?s = "sort_key key xs"
  have ne: "?s \<noteq> []" using assms by (metis length_sort list.size(3) length_0_conv)
  have "last ?s \<in> set ?s" using ne by (rule last_in_set)
  then have m: "last ?s \<in> set xs" by (simp only: set_sort)
  have srt: "sorted (map key ?s)" by simp
  have "\<forall>x \<in> set ?s. key x \<le> key (last ?s)"
  proof
    fix x assume "x \<in> set ?s"
    then obtain i where i: "i < length ?s" "?s ! i = x" by (metis in_set_conv_nth)
    have "map key ?s ! i \<le> map key ?s ! (length ?s - 1)"
      using srt i ne by (intro sorted_nth_mono) auto
    with i ne show "key x \<le> key (last ?s)" by (simp add: last_conv_nth)
  qed
  with m show ?thesis by simp
qed

subsection \<open>latestVersion\<close>

lemma version_tag_v810: "version_tag ''v8.1.0''"
  by (simp add: version_tag_def digits_def is_digit_def)

lemma loop_nonempty:
  "releases \<noteq> [] \<Longrightarrow> latestVersion_loop sv gh releases page = Some (Inr (releases, page))"
  by (subst latestVersion_loop.simps) simp

lemma loop_empty:
  "latestVersion_loop sv gh [] page =
     (case getNpmReleases sv gh page of
        Inl e \<Rightarrow> Some (Inl e)
      | Inr releases' \<Rightarrow> latestVersion_loop sv gh releases' (page + 1))"
  by (subst latestVersion_loop.simps) simp

lemma getNpmReleases_page:
  "cli_page gh page = Inr data \<Longrightarrow>
   getNpmReleases sv gh page = js_sort (compare sv) (qualifying data)"
  by (simp add: getNpmReleases_def qualifying_def)

lemma loop_skip_empty:
  "cli_page gh page = Inr data \<Longrightarrow> qualifying data = [] \<Longrightarrow>
   latestVersion_loop sv gh [] page = latestVersion_loop sv gh [] (Suc page)"
  by (simp add: loop_empty getNpmReleases_page)

lemma loop_stop:
  assumes "cli_page gh page = Inr data" "qualifying data \<noteq> []"
  shows "latestVersion_loop sv gh [] page =
     (case js_sort (compare sv) (qualifying data) of
        Inl e \<Rightarrow> Some (Inl e)
      | Inr r \<Rightarrow> Some (Inr (r, Suc page)))"
proof (cases "js_sort (compare sv) (qualifying data)")
  case (Inl e)
  with assms show ?thesis by (simp add: loop_empty getNpmReleases_page)
next
  case (Inr r)
  with assms have "r \<noteq> []" by (auto dest: js_sort_length)
  with Inr assms show ?thesis by (simp add: loop_empty getNpmReleases_page loop_nonempty)
qed

lemma loop_passed_over:
  "passed_over gh page \<Longrightarrow>
   latestVersion_loop sv gh [] page = latestVersion_loop sv gh [] (Suc page)"
  by (cases "cli_page gh page") (simp_all add: passed_over_def loop_skip_empty)

lemma loop_fails:
  "cli_page gh page = Inl e \<Longrightarrow> latestVersion_loop sv gh [] page = Some (Inl e)"
  by (simp add: loop_empty getNpmReleases_def)

lemma loop_reaches:
  assumes empty: "\<forall>p. page \<le> p \<and> p < n \<longrightarrow> passed_over gh p"
    and le: "page \<le> n"
  shows "latestVersion_loop sv gh [] page = latestVersion_loop sv gh [] n"
  using le empty
proof (induction "n - page" arbitrary: page)
  case 0
  then show ?case by simp
next
  case (Suc d)
  then have lt: "page < n" by simp
  with Suc.prems have "passed_over gh page" by simp
  then have "latestVersion_loop sv gh [] page = latestVersion_loop sv gh [] (Suc page)"
    by (rule loop_passed_over)
  moreover have "latestVersion_loop sv gh [] (Suc page) = latestVersion_loop sv gh [] n"
    using Suc.hyps(2) lt Suc.prems by (intro Suc.hyps(1)) auto
  ultimately show ?case by simp
qed

lemma loop_settles:
  assumes "\<not> passed_over gh page"
  shows "latestVersion_loop sv gh [] page \<noteq> None"
proof (cases "cli_page gh page")
  case (Inl e)
  then show ?thesis by (simp add: loop_fails)
next
  case (Inr data)
  with assms have "qualifying data \<noteq> []" by (simp add: passed_over_def)
  with Inr show ?thesis by (simp add: loop_stop split: sum.splits)
qed

lemma loop_Some_has_page:
  assumes some: "latestVersion_loop sv gh releases page = Some y"
  shows "releases \<noteq> [] \<or> (\<exists>n \<ge> page. \<not> passed_over gh n)"
proof (rule latestVersion_loop.raw_induct
    [where P = "\<lambda>sv gh releases page y.
                  releases \<noteq> [] \<or> (\<exists>n \<ge> page. \<not> passed_over gh n)",
     OF _ some], goal_cases)
  case (1 f sv gh releases page y)
  show ?case
  proof (cases "releases = [] \<and> passed_over gh page")
    case False
    then show ?thesis by blast
  next
    case True
    then obtain data where "cli_page gh page = Inr data" "qualifying data = []"
      by (cases "cli_page gh page") (simp_all add: passed_over_def)
    then have "getNpmReleases sv gh page = Inr []"
      by (simp add: getNpmReleases_page)
    with 1(2) True have "f sv gh [] (page + 1) = Some y" by simp
    from 1(1) [OF this] obtain n
      where "page + 1 \<le> n" "\<not> passed_over gh n" by auto
    then have "page \<le> n \<and> \<not> passed_over gh n" by simp
    then show ?thesis by blast
  qed
qed

lemma truthy_Some [simp]: "truthy (Some s) = (s \<noteq> [])"
  by (simp add: truthy_def)

lemma truthy_None [simp]: "\<not> truthy None"
  by (simp add: truthy_def)

lemma maxSatisfying_loop_max:
  assumes ord: "ordered_by sv key A" and ne: "[] \<notin> A"
  shows "{v \<in> set vs. satisfies sv r v} \<subseteq> A \<Longrightarrow> (\<forall>m. mx = Some m \<longrightarrow> m \<in> A) \<Longrightarrow>
     \<exists>res. maxSatisfying_loop sv r vs mx = Inr res \<and>
        (case res of
           None \<Rightarrow> mx = None \<and> (\<forall>v \<in> set vs. \<not> satisfies sv r v)
         | Some m \<Rightarrow>
             (m \<in> set vs \<and> satisfies sv r m \<or> mx = Some m) \<and>
             (\<forall>x \<in> set vs. satisfies sv r x \<longrightarrow> key x \<le> key m) \<and>
             (\<forall>m0. mx = Some m0 \<longrightarrow> key m0 \<le> key m))"
proof (induction vs arbitrary: mx)
  case Nil
  then show ?case by (cases mx) auto
next
  case (Cons v vs)
  have sub: "{v \<in> set vs. satisfies sv r v} \<subseteq> A" using Cons.prems(1) by auto
  show ?case
  proof (cases "satisfies sv r v")
    case False
    from Cons.IH [OF sub Cons.prems(2)] False show ?thesis
      by (auto split: option.splits)
  next
    case True
    then have vA: "v \<in> A" using Cons.prems(1) by auto
    with ne have vne: "v \<noteq> []" by auto
    show ?thesis
    proof (cases mx)
      case None
      have "\<forall>m. Some v = Some m \<longrightarrow> m \<in> A" using vA by simp
      from Cons.IH [OF sub this] None True show ?thesis
        by (auto split: option.splits)
    next
      case (Some m0)
      then have m0A: "m0 \<in> A" using Cons.prems(2) by simp
      with ne have m0ne: "m0 \<noteq> []" by auto
      have c: "compare sv m0 v =
          Inr (if key m0 < key v then - 1 else if key m0 = key v then 0 else 1)"
        using ord m0A vA by (simp add: ordered_by_def)
      show ?thesis
      proof (cases "key m0 < key v")
        case lt: True
        have "\<forall>m. Some v = Some m \<longrightarrow> m \<in> A" using vA by simp
        from Cons.IH [OF sub this] obtain res where
          res: "maxSatisfying_loop sv r vs (Some v) = Inr res"
            "case res of None \<Rightarrow> Some v = None \<and> (\<forall>v \<in> set vs. \<not> satisfies sv r v)
             | Some m \<Rightarrow> (m \<in> set vs \<and> satisfies sv r m \<or> Some v = Some m) \<and>
                 (\<forall>x \<in> set vs. satisfies sv r x \<longrightarrow> key x \<le> key m) \<and>
                 (\<forall>m0. Some v = Some m0 \<longrightarrow> key m0 \<le> key m)"
          by blast
        have "maxSatisfying_loop sv r (v # vs) mx = Inr res"
          using True Some m0ne c lt res(1) by simp
        moreover from res(2) True Some lt have
          "case res of None \<Rightarrow> mx = None \<and> (\<forall>v \<in> set (v # vs). \<not> satisfies sv r v)
           | Some m \<Rightarrow> (m \<in> set (v # vs) \<and> satisfies sv r m \<or> mx = Some m) \<and>
               (\<forall>x \<in> set (v # vs). satisfies sv r x \<longrightarrow> key x \<le> key m) \<and>
               (\<forall>m0. mx = Some m0 \<longrightarrow> key m0 \<le> key m)"
          by (cases res) (auto intro: order_trans less_imp_le)
        ultimately show ?thesis by blast
      next
        case ge: False
        from Cons.IH [OF sub Cons.prems(2)] obtain res where
          res: "maxSatisfying_loop sv r vs mx = Inr res"
            "case res of None \<Rightarrow> mx = None \<and> (\<forall>v \<in> set vs. \<not> satisfies sv r v)
             | Some m \<Rightarrow> (m \<in> set vs \<and> satisfies sv r m \<or> mx = Some m) \<and>
                 (\<forall>x \<in> set vs. satisfies sv r x \<longrightarrow> key x \<le> key m) \<and>
                 (\<forall>m0. mx = Some m0 \<longrightarrow> key m0 \<le> key m)"
          by blast
        have "maxSatisfying_loop sv r (v # vs) mx = Inr res"
          using True Some m0ne c ge res(1) by simp
        moreover from res(2) True Some ge have
          "case res of None \<Rightarrow> mx = None \<and> (\<forall>v \<in> set (v # vs). \<not> satisfies sv r v)
           | Some m \<Rightarrow> (m \<in> set (v # vs) \<and> satisfies sv r m \<or> mx = Some m) \<and>
               (\<forall>x \<in> set (v # vs). satisfies sv r x \<longrightarrow> key x \<le> key m) \<and>
               (\<forall>m0. mx = Some m0 \<longrightarrow> key m0 \<le> key m)"
          by (cases res) (auto intro: order_trans)
        ultimately show ?thesis by blast
      qed
    qed
  qed
qed

lemma no_match_contains: "\<exists>a b. no_match v = a @ v @ b"
proof -
  have "no_match v = (''Version spec, '' @ [CHR 0x22]) @ v @
        ([CHR 0x22] @ '', didn'' @ [CHR 0x27] @ ''t match any version'')"
    by (simp add: no_match_def)
  then show ?thesis by blast
qed

lemma key_1_0_0: "plain_key ''1.0.0'' = (1, 0, 0)"
  by code_simp

lemma key_2_0_0: "plain_key ''2.0.0'' = (2, 0, 0)"
  by code_simp

lemma key_2_5_3: "plain_key ''2.5.3'' = (2, 5, 3)"
  by code_simp

lemma caret2_2_0_0: "satisfies plain_semver ''^2.0.0'' ''2.0.0''"
  by code_simp

lemma caret2_2_5_3: "satisfies plain_semver ''^2.0.0'' ''2.5.3''"
  by code_simp

lemma three_ordered: "ordered_by plain_semver plain_key (set [''1.0.0'', ''2.0.0'', ''2.5.3''])"
  unfolding ordered_by_def by code_simp

lemma three_available: "listAvailable three_releases = Inr [''1.0.0'', ''2.0.0'', ''2.5.3'']"
  by code_simp

lemma caret2_valid: "truthy (validRange plain_semver ''^2.0.0'')"
  by code_simp

lemma caret3_valid: "truthy (validRange plain_semver ''^3.0.0'')"
  by code_simp

lemma caret3_none:
  "\<not> satisfies plain_semver ''^3.0.0'' ''1.0.0'' \<and> \<not> satisfies plain_semver ''^3.0.0'' ''2.0.0''
   \<and> \<not> satisfies plain_semver ''^3.0.0'' ''2.5.3''"
  by code_simp

subsection \<open>resolveVersion on a range\<close>

text \<open>
  C1: for a specifier \<open>v\<close> that is not empty, not \<open>latest\<close> and not \<open>match\<close> and
  is a semantic range, and a pool \<open>P\<close> returned by \<open>listAvailable\<close>:
  \<open>resolveVersion\<close> succeeds with an element of \<open>P\<close> that satisfies \<open>v\<close> and has
  the greatest precedence among those that do, if there is one, and otherwise fails with
  the error whose message contains the text \<open>v\<close>. The library's \<open>compare\<close> is taken
  to order the satisfying elements by their precedence \<open>key\<close>, and no satisfying
  element to be the empty string.
\<close>

theorem resolveVersion_range:
  assumes spec: "v \<noteq> []" "v \<noteq> ''latest''" "v \<noteq> ''match''"
    and range: "truthy (validRange sv v)"
    and pool: "listAvailable gh = Inr P"
    and ord: "ordered_by sv key {x \<in> set P. satisfies sv v x}"
    and ne: "\<forall>x \<in> set P. satisfies sv v x \<longrightarrow> x \<noteq> []"
  shows "if \<exists>x \<in> set P. satisfies sv v x
         then \<exists>m. resolveVersion sv gh nd v = Some (Done m) \<and> m \<in> set P \<and> satisfies sv v m
                  \<and> (\<forall>x \<in> set P. satisfies sv v x \<longrightarrow> key x \<le> key m)
         else resolveVersion sv gh nd v = Some (Done_error (Error (no_match v)))
              \<and> (\<exists>a b. no_match v = a @ v @ b)"
proof -
  let ?A = "{x \<in> set P. satisfies sv v x}"
  have "[] \<notin> ?A" using ne by auto
  from maxSatisfying_loop_max [OF ord this, of P v None] obtain res where
    res: "maxSatisfying_loop sv v P None = Inr res"
      "case res of None \<Rightarrow> (\<forall>x \<in> set P. \<not> satisfies sv v x)
       | Some m \<Rightarrow> (m \<in> set P \<and> satisfies sv v m) \<and>
           (\<forall>x \<in> set P. satisfies sv v x \<longrightarrow> key x \<le> key m)"
    by (auto split: option.splits)
  from range have vr: "validRange sv v \<noteq> None" by (cases "validRange sv v") simp_all
  have r: "resolveVersion sv gh nd v =
      Some (if \<not> truthy res then Done_error (Error (no_match v)) else Done (the res))"
    using spec range pool res(1) by (simp add: resolveVersion_def maxSatisfying_def vr)
  show ?thesis
  proof (cases res)
    case None
    with res(2) r show ?thesis by (auto simp: no_match_contains)
  next
    case (Some m)
    with res(2) ne have "m \<noteq> []" by auto
    with Some res(2) r show ?thesis by auto
  qed
qed

text \<open>
  The pool \<open>1.0.0, 2.0.0, 2.5.3\<close>: \<open>^2.0.0\<close> resolves to \<open>2.5.3\<close>, and
  \<open>^3.0.0\<close> matches nothing.
\<close>

theorem resolveVersion_range_witness:
  "resolveVersion plain_semver three_releases no_host ''^2.0.0'' = Some (Done ''2.5.3'') \<and>
   resolveVersion plain_semver three_releases no_host ''^3.0.0'' =
     Some (Done_error (Error (no_match ''^3.0.0'')))"
proof
  let ?P = "[''1.0.0'', ''2.0.0'', ''2.5.3'']"
  have spec: "''^2.0.0'' \<noteq> []" "''^2.0.0'' \<noteq> ''latest''" "''^2.0.0'' \<noteq> ''match''" by simp_all
  have ord: "ordered_by plain_semver plain_key {x \<in> set ?P. satisfies plain_semver ''^2.0.0'' x}"
    by (rule ordered_by_subset [OF three_ordered]) auto
  have ne: "\<forall>x \<in> set ?P. satisfies plain_semver ''^2.0.0'' x \<longrightarrow> x \<noteq> []" by simp
  have ex: "\<exists>x \<in> set ?P. satisfies plain_semver ''^2.0.0'' x" using caret2_2_0_0 by simp
  from resolveVersion_range [OF spec caret2_valid three_available ord ne, of no_host] ex
  obtain m where m: "resolveVersion plain_semver three_releases no_host ''^2.0.0'' = Some (Done m)"
    "m \<in> set ?P" "satisfies plain_semver ''^2.0.0'' m"
    "\<forall>x \<in> set ?P. satisfies plain_semver ''^2.0.0'' x \<longrightarrow> plain_key x \<le> plain_key m"
    by auto
  from m(4) caret2_2_5_3 have "plain_key ''2.5.3'' \<le> plain_key m" by simp
  with m(2) have "m = ''2.5.3''" by (auto simp: key_1_0_0 key_2_0_0 key_2_5_3)
  with m(1) show "resolveVersion plain_semver three_releases no_host ''^2.0.0'' = Some (Done ''2.5.3'')"
    by simp
next
  let ?P = "[''1.0.0'', ''2.0.0'', ''2.5.3'']"
  have spec: "''^3.0.0'' \<noteq> []" "''^3.0.0'' \<noteq> ''latest''" "''^3.0.0'' \<noteq> ''match''" by simp_all
  have none: "\<not> (\<exists>x \<in> set ?P. satisfies plain_semver ''^3.0.0'' x)"
    using caret3_none by simp
  then have ord: "ordered_by plain_semver plain_key {x \<in> set ?P. satisfies plain_semver ''^3.0.0'' x}"
    by (auto simp: ordered_by_def)
  have ne: "\<forall>x \<in> set ?P. satisfies plain_semver ''^3.0.0'' x \<longrightarrow> x \<noteq> []" by simp
  from resolveVersion_range [OF spec caret3_valid three_available ord ne, of no_host] none
  show "resolveVersion plain_semver three_releases no_host ''^3.0.0'' =
     Some (Done_error (Error (no_match ''^3.0.0'')))"
    by simp
qed

subsection \<open>listAvailable\<close>

text \<open>
  The callback of the filter, on a release object: it answers whether the release's
  name has no \<open>:\<close>, the test that the comment above it describes. On a tag, a string,
  it throws: a string has no property \<open>name\<close>.
\<close>

lemma find_sub_char: "find_sub [c] s = None \<longleftrightarrow> c \<notin> set s"
  by (induction s) auto

lemma no_separator_Release: "no_separator (Release r) = Inr (CHR '':'' \<notin> set (name r))"
proof -
  have "js_indexOf (name r) '':'' < 0 \<longleftrightarrow> CHR '':'' \<notin> set (name r)"
    using find_sub_char [of "CHR '':''" "name r"]
    by (auto simp: js_indexOf_def split: option.splits)
  then show ?thesis by (simp add: no_separator_def)
qed

lemma no_separator_Str: "no_separator (Str t) = Inl (TypeError (reading_undefined ''indexOf''))"
  by (simp add: no_separator_def)

lemma filter_tags:
  "js_filter (\<lambda>release. no_separator (Str release)) cli =
     (if cli = [] then Inr [] else Inl (TypeError (reading_undefined ''indexOf'')))"
  by (cases cli) (simp_all add: no_separator_Str)

text \<open>
  C3: the merged pool keeps the entries of the first feed and filters those of the
  second feed by the separator in their name. The source maps both feeds to their tags
  before it filters, and the filter reads \<open>name\<close> from each tag, a string:
  \<open>listAvailable\<close> returns a pool only when the second feed is empty, the tags of the
  first feed; with any entry in the second feed it rejects with the \<open>TypeError\<close>
  \<open>Cannot read properties of undefined (reading 'indexOf')\<close>, whatever the names are.
  It does so for a first feed with \<open>v6.14.18\<close> and a second feed with the releases
  \<open>v9.0.0\<close> and \<open>arborist: v6.0.0\<close> (tag \<open>arborist-v6.0.0\<close>), for which the claim
  has the pool \<open>v6.14.18, arborist-v6.0.0\<close> and the comment above the filter the pool
  \<open>v6.14.18, v9.0.0\<close>.
\<close>

theorem listAvailable_rejects_tags:
  "listAvailable two_feeds = Inl (TypeError (reading_undefined ''indexOf''))
   \<and> reading_undefined ''indexOf'' =
       ''Cannot read properties of undefined (reading '' @ [CHR 0x27] @ ''indexOf'' @ [CHR 0x27] @ '')''
   \<and> listAvailable gh =
       (case npm_releases gh of
          Inl e \<Rightarrow> Inl e
        | Inr npm_data \<Rightarrow>
            (case cli_releases gh of
               Inl e \<Rightarrow> Inl e
             | Inr cli_data \<Rightarrow>
                 if cli_data = [] then Inr (map tag_name npm_data)
                 else Inl (TypeError (reading_undefined ''indexOf''))))"
proof (intro conjI)
  show g: "listAvailable gh =
       (case npm_releases gh of
          Inl e \<Rightarrow> Inl e
        | Inr npm_data \<Rightarrow>
            (case cli_releases gh of
               Inl e \<Rightarrow> Inl e
             | Inr cli_data \<Rightarrow>
                 if cli_data = [] then Inr (map tag_name npm_data)
                 else Inl (TypeError (reading_undefined ''indexOf''))))" for gh
    by (simp add: listAvailable_def Let_def filter_tags split: sum.splits)
  show "listAvailable two_feeds = Inl (TypeError (reading_undefined ''indexOf''))"
    by (simp add: g two_feeds_def)
  show "reading_undefined ''indexOf'' =
       ''Cannot read properties of undefined (reading '' @ [CHR 0x27] @ ''indexOf'' @ [CHR 0x27] @ '')''"
    by (simp add: reading_undefined_def)
qed

subsection \<open>The latest version\<close>

lemma latest_second_page:
  assumes "cli_page gh 1 = Inr first" "qualifying first = []"
    and "cli_page gh 2 = Inr second" "map tag_name second = [''v8.1.0'']"
  shows "latestVersion_loop sv gh [] 1 = Some (Inr ([''v8.1.0''], 3))"
proof -
  have q: "qualifying second = [''v8.1.0'']"
    using assms(4) by (simp add: qualifying_def version_tag_v810)
  have "latestVersion_loop sv gh [] 1 = latestVersion_loop sv gh [] (Suc 1)"
    using assms(1,2) by (rule loop_skip_empty)
  also have "Suc 1 = 2" by simp
  also have "latestVersion_loop sv gh [] 2 = Some (Inr ([''v8.1.0''], Suc 2))"
    using loop_stop [of gh 2 second sv] assms(3) q by simp
  also have "Suc 2 = 3" by simp
  finally show ?thesis .
qed

text \<open>
  C2, amended: for the empty specifier, when the first page of the catalog has no
  qualifying entry and the second page holds exactly the tag \<open>v8.1.0\<close>,
  \<open>resolveVersion\<close> resolves to that tag as it is, \<open>v8.1.0\<close>, and the loop has
  fetched pages 1 and 2 (its page counter stops at 3).
\<close>

theorem resolveVersion_empty_second_page:
  assumes "cli_page gh 1 = Inr first" "qualifying first = []"
    and "cli_page gh 2 = Inr second" "map tag_name second = [''v8.1.0'']"
  shows "resolveVersion sv gh nd [] = Some (Done ''v8.1.0'')
         \<and> latestVersion_loop sv gh [] 1 = Some (Inr ([''v8.1.0''], 3))"
  using latest_second_page [OF assms] by (simp add: resolveVersion_def latestVersion_def)

lemma two_pages_1: "cli_page two_pages 1 = Inr [tagged ''libnpmpublish-v7.0.0'']"
  by (simp add: two_pages_def)

lemma two_pages_2: "cli_page two_pages 2 = Inr [tagged ''v8.1.0'']"
  by (simp add: two_pages_def)

lemma not_qualifying: "qualifying [tagged ''libnpmpublish-v7.0.0''] = []"
  by (simp add: qualifying_def tagged_def version_tag_def)

text \<open>
  The catalog \<open>two_pages\<close> is such a catalog.
\<close>

theorem resolveVersion_empty_second_page_witness:
  "resolveVersion plain_semver two_pages no_host [] = Some (Done ''v8.1.0'')
   \<and> latestVersion_loop plain_semver two_pages [] 1 = Some (Inr ([''v8.1.0''], 3))"
  using resolveVersion_empty_second_page [OF two_pages_1 not_qualifying two_pages_2]
  by (simp add: tagged_def)

text \<open>
  C2, as stated: the result is the string \<open>8.1.0\<close>. The source passes the tag on
  with its leading \<open>v\<close>.
\<close>

theorem resolveVersion_keeps_v_counterexample:
  "resolveVersion plain_semver two_pages no_host [] \<noteq> Some (Done ''8.1.0'')"
proof -
  have "map tag_name [tagged ''v8.1.0''] = [''v8.1.0'']" by (simp add: tagged_def)
  from latest_second_page [OF two_pages_1 not_qualifying two_pages_2 this]
  show ?thesis by (simp add: resolveVersion_def latestVersion_def)
qed

lemma page2_qualifying: "qualifying (release_pages 2) = [''v8.1.0'', ''v8.19.2'', ''v8.3.0'']"
  by code_simp

lemma page1_qualifying: "qualifying (release_pages 1) = []"
  by code_simp

lemma page2_ordered: "ordered_by plain_semver plain_key (set [''v8.1.0'', ''v8.19.2'', ''v8.3.0''])"
  unfolding ordered_by_def by code_simp

lemma key_v8_1_0: "plain_key ''v8.1.0'' = (8, 1, 0)"
  by code_simp

lemma key_v8_19_2: "plain_key ''v8.19.2'' = (8, 19, 2)"
  by code_simp

lemma key_v8_3_0: "plain_key ''v8.3.0'' = (8, 3, 0)"
  by code_simp

lemma zero_padded_1: "cli_page zero_padded 1 = Inr [tagged ''v01.0.0'', tagged ''v2.0.0'']"
  by (simp add: zero_padded_def)

lemma zero_padded_qualifying:
  "qualifying [tagged ''v01.0.0'', tagged ''v2.0.0''] = [''v01.0.0'', ''v2.0.0'']"
  by code_simp

lemma zero_padded_sort:
  "js_sort (compare plain_semver) [''v01.0.0'', ''v2.0.0'']
     = Inl (TypeError ''Invalid Version: v01.0.0'')"
  by code_simp

lemma flaky_1: "cli_page flaky 1 = Inr [tagged ''libnpmpublish-v7.0.0'']"
  by (simp add: flaky_def)

lemma flaky_2: "cli_page flaky 2 = Inl (SysError ''ETIMEDOUT'')"
  by (simp add: flaky_def)

lemma paged_1: "passed_over paged 1"
  unfolding passed_over_def paged_def using page1_qualifying by simp

lemma unversioned_all: "passed_over unversioned n"
  by (simp add: passed_over_def unversioned_def no_pages_def not_qualifying)

lemma flaky_passed_1: "passed_over flaky 1"
  unfolding passed_over_def using flaky_1 not_qualifying by simp

lemma before_2:
  assumes "passed_over gh 1"
  shows "\<forall>p. 1 \<le> p \<and> p < 2 \<longrightarrow> passed_over gh p"
proof (intro allI impI)
  fix p :: nat
  assume "1 \<le> p \<and> p < 2"
  then have "p = 1" by simp
  with assms show "passed_over gh p" by simp
qed

text \<open>
  C10, amended: \<open>latestVersion\<close> settles if and only if, from page 1 on, some page
  either cannot be fetched or has a qualifying tag; the pages before the first such
  page \<open>n\<close> are passed over. If the request for page \<open>n\<close> fails, \<open>latestVersion\<close>
  rejects with that failure. If \<open>compare\<close> throws while the qualifying tags of page
  \<open>n\<close> are sorted, it rejects with what \<open>compare\<close> threw. If \<open>compare\<close> orders the
  qualifying tags of page \<open>n\<close> by their precedence \<open>key\<close>, it returns one of them of
  greatest precedence. When every page is fetched and filters to empty the loop never
  ends (the result is \<open>None\<close>).
\<close>

theorem latestVersion_first_page:
  "(latestVersion sv gh \<noteq> None \<longleftrightarrow> (\<exists>n \<ge> 1. \<not> passed_over gh n))
   \<and> (\<forall>n e. 1 \<le> n \<and> (\<forall>p. 1 \<le> p \<and> p < n \<longrightarrow> passed_over gh p)
            \<and> cli_page gh n = Inl e
          \<longrightarrow> latestVersion sv gh = Some (Inl e))
   \<and> (\<forall>n data e. 1 \<le> n \<and> (\<forall>p. 1 \<le> p \<and> p < n \<longrightarrow> passed_over gh p)
            \<and> cli_page gh n = Inr data
            \<and> js_sort (compare sv) (qualifying data) = Inl e
          \<longrightarrow> latestVersion sv gh = Some (Inl e))
   \<and> (\<forall>n data. 1 \<le> n \<and> (\<forall>p. 1 \<le> p \<and> p < n \<longrightarrow> passed_over gh p)
            \<and> cli_page gh n = Inr data \<and> qualifying data \<noteq> []
            \<and> ordered_by sv key (set (qualifying data))
          \<longrightarrow> (\<exists>m. latestVersion sv gh = Some (Inr m) \<and> m \<in> set (qualifying data)
                   \<and> (\<forall>x \<in> set (qualifying data). key x \<le> key m)))"
proof (intro conjI iffI allI impI)
  assume "latestVersion sv gh \<noteq> None"
  then obtain y where "latestVersion_loop sv gh [] 1 = Some y"
    by (auto simp: latestVersion_def)
  from loop_Some_has_page [OF this] show "\<exists>n \<ge> 1. \<not> passed_over gh n"
    by simp
next
  assume "\<exists>n \<ge> 1. \<not> passed_over gh n"
  then obtain n0 where n0: "1 \<le> n0" "\<not> passed_over gh n0" by blast
  define n where "n = (LEAST k. 1 \<le> k \<and> \<not> passed_over gh k)"
  have n: "1 \<le> n \<and> \<not> passed_over gh n"
    unfolding n_def using n0 by (intro LeastI [of "\<lambda>k. 1 \<le> k \<and> \<not> passed_over gh k" n0]) simp
  have first: "\<forall>p. 1 \<le> p \<and> p < n \<longrightarrow> passed_over gh p"
    unfolding n_def using not_less_Least by blast
  have "latestVersion_loop sv gh [] 1 = latestVersion_loop sv gh [] n"
    using first n by (intro loop_reaches) auto
  moreover have "latestVersion_loop sv gh [] n \<noteq> None"
    using n by (intro loop_settles) simp
  ultimately show "latestVersion sv gh \<noteq> None"
    by (simp add: latestVersion_def)
next
  fix n e
  assume h: "1 \<le> n \<and> (\<forall>p. 1 \<le> p \<and> p < n \<longrightarrow> passed_over gh p) \<and> cli_page gh n = Inl e"
  have "latestVersion_loop sv gh [] 1 = latestVersion_loop sv gh [] n"
    using h by (intro loop_reaches) auto
  also have "\<dots> = Some (Inl e)"
    using h by (intro loop_fails) simp
  finally show "latestVersion sv gh = Some (Inl e)"
    by (simp add: latestVersion_def)
next
  fix n data e
  assume h: "1 \<le> n \<and> (\<forall>p. 1 \<le> p \<and> p < n \<longrightarrow> passed_over gh p)
             \<and> cli_page gh n = Inr data \<and> js_sort (compare sv) (qualifying data) = Inl e"
  have "latestVersion_loop sv gh [] 1 = latestVersion_loop sv gh [] n"
    using h by (intro loop_reaches) auto
  also have "\<dots> = Some (Inl e)"
    using h by (simp add: loop_empty getNpmReleases_page)
  finally show "latestVersion sv gh = Some (Inl e)"
    by (simp add: latestVersion_def)
next
  fix n data
  assume h: "1 \<le> n \<and> (\<forall>p. 1 \<le> p \<and> p < n \<longrightarrow> passed_over gh p)
             \<and> cli_page gh n = Inr data \<and> qualifying data \<noteq> []
             \<and> ordered_by sv key (set (qualifying data))"
  let ?q = "qualifying data"
  have "latestVersion_loop sv gh [] 1 = latestVersion_loop sv gh [] n"
    using h by (intro loop_reaches) auto
  also have "\<dots> = (case js_sort (compare sv) ?q of
        Inl e \<Rightarrow> Some (Inl e) | Inr r \<Rightarrow> Some (Inr (r, Suc n)))"
    using h by (intro loop_stop) auto
  also have "\<dots> = Some (Inr (sort_key key ?q, Suc n))"
  proof -
    from h have "js_sort (compare sv) ?q = Inr (sort_key key ?q)"
      by (intro js_sort_sort_key) simp
    then show ?thesis by simp
  qed
  finally have "latestVersion sv gh = Some (Inr (last (sort_key key ?q)))"
    by (simp add: latestVersion_def)
  moreover from h have "?q \<noteq> []" by simp
  ultimately show "\<exists>m. latestVersion sv gh = Some (Inr m) \<and> m \<in> set ?q
                   \<and> (\<forall>x \<in> set ?q. key x \<le> key m)"
    using last_sort_key_max [of ?q key] by blast
qed

text \<open>
  In \<open>paged\<close> page 2 is the first page with qualifying tags and \<open>v8.19.2\<close> the
  greatest of them; in \<open>unversioned\<close> every page is passed over; in \<open>zero_padded\<close>
  the tag \<open>v01.0.0\<close> of page 1 passes the test and is not a version for \<open>compare\<close>;
  in \<open>flaky\<close> page 1 is passed over and the request for page 2 fails.
\<close>

theorem latestVersion_first_page_witness:
  "latestVersion plain_semver paged = Some (Inr ''v8.19.2'') \<and>
   latestVersion plain_semver unversioned = None \<and>
   latestVersion plain_semver zero_padded = Some (Inl (TypeError ''Invalid Version: v01.0.0'')) \<and>
   latestVersion plain_semver flaky = Some (Inl (SysError ''ETIMEDOUT''))"
proof (intro conjI)
  have first: "\<forall>p. 1 \<le> p \<and> p < 2 \<longrightarrow> passed_over paged p"
    using paged_1 by (rule before_2)
  have page: "cli_page paged 2 = Inr (release_pages 2)" by (simp add: paged_def)
  have "1 \<le> (2::nat) \<and> (\<forall>p. 1 \<le> p \<and> p < 2 \<longrightarrow> passed_over paged p)
        \<and> cli_page paged 2 = Inr (release_pages 2) \<and> qualifying (release_pages 2) \<noteq> []
        \<and> ordered_by plain_semver plain_key (set (qualifying (release_pages 2)))"
    using first page page2_ordered by (simp add: page2_qualifying)
  with latestVersion_first_page [of plain_semver paged plain_key]
  obtain m where m: "latestVersion plain_semver paged = Some (Inr m)"
    "m \<in> set (qualifying (release_pages 2))"
    "\<forall>x \<in> set (qualifying (release_pages 2)). plain_key x \<le> plain_key m"
    by blast
  from m(3) have "plain_key ''v8.19.2'' \<le> plain_key m" by (simp add: page2_qualifying)
  with m(2) have "m = ''v8.19.2''"
    by (auto simp: page2_qualifying key_v8_1_0 key_v8_19_2 key_v8_3_0)
  with m(1) show "latestVersion plain_semver paged = Some (Inr ''v8.19.2'')" by simp
next
  have "\<not> (\<exists>n \<ge> 1. \<not> passed_over unversioned n)"
    by (simp add: unversioned_all)
  with latestVersion_first_page [of plain_semver unversioned plain_key]
  show "latestVersion plain_semver unversioned = None" by blast
next
  have "1 \<le> (1::nat) \<and> (\<forall>p. 1 \<le> p \<and> p < 1 \<longrightarrow> passed_over zero_padded p)
        \<and> cli_page zero_padded 1 = Inr [tagged ''v01.0.0'', tagged ''v2.0.0'']
        \<and> js_sort (compare plain_semver) (qualifying [tagged ''v01.0.0'', tagged ''v2.0.0''])
            = Inl (TypeError ''Invalid Version: v01.0.0'')"
    using zero_padded_1 zero_padded_sort by (simp add: zero_padded_qualifying)
  with latestVersion_first_page [of plain_semver zero_padded plain_key]
  show "latestVersion plain_semver zero_padded
          = Some (Inl (TypeError ''Invalid Version: v01.0.0''))"
    by blast
next
  have "\<forall>p. 1 \<le> p \<and> p < 2 \<longrightarrow> passed_over flaky p"
    using flaky_passed_1 by (rule before_2)
  then have "1 \<le> (2::nat) \<and> (\<forall>p. 1 \<le> p \<and> p < 2 \<longrightarrow> passed_over flaky p)
        \<and> cli_page flaky 2 = Inl (SysError ''ETIMEDOUT'')"
    using flaky_2 by simp
  with latestVersion_first_page [of plain_semver flaky plain_key]
  show "latestVersion plain_semver flaky = Some (Inl (SysError ''ETIMEDOUT''))"
    by blast
qed

text \<open>
  C10, as stated: \<open>latestVersion\<close> terminates if and only if some page yields a
  qualifying entry, and then returns the maximum qualifying tag of the first such page.
  In \<open>zero_padded\<close> page 1 yields the qualifying tags \<open>v01.0.0\<close> and \<open>v2.0.0\<close>,
  and \<open>latestVersion\<close> returns neither: it rejects with the \<open>TypeError\<close> of
  \<open>compare\<close>. In \<open>flaky\<close> no page yields a qualifying entry, and \<open>latestVersion\<close>
  terminates: it rejects with the failure of the request for page 2.
\<close>

theorem latestVersion_rejects_counterexample:
  "cli_page zero_padded 1 = Inr [tagged ''v01.0.0'', tagged ''v2.0.0'']
   \<and> qualifying [tagged ''v01.0.0'', tagged ''v2.0.0''] = [''v01.0.0'', ''v2.0.0'']
   \<and> latestVersion plain_semver zero_padded = Some (Inl (TypeError ''Invalid Version: v01.0.0''))
   \<and> (\<forall>p. \<not> (\<exists>data. cli_page flaky p = Inr data \<and> qualifying data \<noteq> []))
   \<and> latestVersion plain_semver flaky = Some (Inl (SysError ''ETIMEDOUT''))"
proof (intro conjI)
  show "cli_page zero_padded 1 = Inr [tagged ''v01.0.0'', tagged ''v2.0.0'']"
    by (rule zero_padded_1)
  show "qualifying [tagged ''v01.0.0'', tagged ''v2.0.0''] = [''v01.0.0'', ''v2.0.0'']"
    by (rule zero_padded_qualifying)
  have "latestVersion_loop plain_semver zero_padded [] 1
          = Some (Inl (TypeError ''Invalid Version: v01.0.0''))"
    using zero_padded_1 zero_padded_sort
    by (simp add: loop_empty getNpmReleases_page zero_padded_qualifying)
  then show "latestVersion plain_semver zero_padded
          = Some (Inl (TypeError ''Invalid Version: v01.0.0''))"
    by (simp add: latestVersion_def)
  show "\<forall>p. \<not> (\<exists>data. cli_page flaky p = Inr data \<and> qualifying data \<noteq> [])"
    by (simp add: flaky_def not_qualifying)
  have "latestVersion_loop plain_semver flaky [] 1 = latestVersion_loop plain_semver flaky [] (Suc 1)"
    using flaky_1 not_qualifying by (rule loop_skip_empty)
  also have "Suc 1 = 2" by simp
  also have "latestVersion_loop plain_semver flaky [] 2 = Some (Inl (SysError ''ETIMEDOUT''))"
    using flaky_2 by (rule loop_fails)
  finally show "latestVersion plain_semver flaky = Some (Inl (SysError ''ETIMEDOUT''))"
    by (simp add: latestVersion_def)
qed

section \<open>Properties of install, remove and listInstalled\<close>

lemma first_install:
  "install 3 plain_semver windows repo ''v9.1.0'' (start empty_repo) = Some (Done ''9.1.0'', after_install)"
  by code_simp

lemma clean_v910: "clean plain_semver ''v9.1.0'' = Some ''9.1.0''"
  by code_simp

lemma valid_910: "truthy (valid plain_semver (Some ''9.1.0'') None)"
  by code_simp

lemma exists_910: "existsSync windows (files after_install) (path_join repo ''9.1.0'')"
  by code_simp

lemma clean_banana: "\<not> truthy (valid plain_semver (clean plain_semver ''banana'') None)"
  by code_simp

lemma clean_800: "clean plain_semver ''8.0.0'' = Some ''8.0.0''"
  by code_simp

lemma valid_800: "truthy (valid plain_semver (Some ''8.0.0'') None)"
  by code_simp

lemma absent_800: "\<not> existsSync windows (files after_install) (path_join repo ''8.0.0'')"
  by code_simp

lemma rimraf_910:
  "rimraf windows (path_join repo ''9.1.0'') (files after_install) = (None, empty_repo)"
  by code_simp

lemma exists_910_busy: "existsSync busy_windows (files after_install) (path_join repo ''9.1.0'')"
  by code_simp

lemma rimraf_910_busy:
  "rimraf busy_windows (path_join repo ''9.1.0'') (files after_install)
     = (Some ''EBUSY'', busy_left)"
  by code_simp

subsection \<open>remove\<close>

text \<open>
  C5: \<open>remove\<close> fails with the error \<open>Invalid version\<close> exactly when the
  specifier does not clean to a valid version, and then changes nothing; for a valid
  specifier whose directory \<open>repoPath/version\<close> is absent it reports the cleaned
  version and leaves the state as it is; otherwise it runs \<open>rimraf\<close> on the directory
  and reports the cleaned version, or the failure of \<open>rimraf\<close> as it came.
\<close>

theorem remove_cases:
  "(fst (remove sv pf repoPath v m) = Done_error (Error ''Invalid version'')
      \<longleftrightarrow> \<not> truthy (valid sv (clean sv v) None))
   \<and> (\<not> truthy (valid sv (clean sv v) None) \<longrightarrow>
        remove sv pf repoPath v m = (Done_error (Error ''Invalid version''), m))
   \<and> (\<forall>version. truthy (valid sv (clean sv v) None) \<and> clean sv v = Some version
          \<and> \<not> existsSync pf (files m) (path_join repoPath version)
        \<longrightarrow> remove sv pf repoPath v m = (Done version, m))
   \<and> (\<forall>version. truthy (valid sv (clean sv v) None) \<and> clean sv v = Some version
          \<and> existsSync pf (files m) (path_join repoPath version)
        \<longrightarrow> remove sv pf repoPath v m =
             (case rimraf pf (path_join repoPath version) (files m) of
                (None, f) \<Rightarrow> (Done version, m\<lparr>files := f\<rparr>)
              | (Some code, f) \<Rightarrow> (Done_error (SysError code), m\<lparr>files := f\<rparr>)))"
  by (auto simp: remove_def Let_def split: option.splits prod.splits)

text \<open>
  On the disk left by an install of 9.1.0: \<open>banana\<close> is invalid, 8.0.0 is absent,
  9.1.0 is deleted, and with a locked file the deletion's \<open>EBUSY\<close> is passed on,
  with the disk as the deletion left it.
\<close>

theorem remove_cases_witness:
  "remove plain_semver windows repo ''banana'' after_install
     = (Done_error (Error ''Invalid version''), after_install)
   \<and> remove plain_semver windows repo ''8.0.0'' after_install = (Done ''8.0.0'', after_install)
   \<and> remove plain_semver windows repo ''v9.1.0'' after_install
     = (Done ''9.1.0'', after_install\<lparr>files := empty_repo\<rparr>)
   \<and> remove plain_semver busy_windows repo ''v9.1.0'' after_install
     = (Done_error (SysError ''EBUSY''), after_install\<lparr>files := busy_left\<rparr>)"
proof (intro conjI)
  show "remove plain_semver windows repo ''banana'' after_install
     = (Done_error (Error ''Invalid version''), after_install)"
    using remove_cases [of plain_semver windows repo "''banana''" after_install] clean_banana
    by blast
  show "remove plain_semver windows repo ''8.0.0'' after_install = (Done ''8.0.0'', after_install)"
    using remove_cases [of plain_semver windows repo "''8.0.0''" after_install]
      clean_800 valid_800 absent_800
    by simp
  show "remove plain_semver windows repo ''v9.1.0'' after_install
     = (Done ''9.1.0'', after_install\<lparr>files := empty_repo\<rparr>)"
    using remove_cases [of plain_semver windows repo "''v9.1.0''" after_install]
      clean_v910 valid_910 exists_910 rimraf_910
    by simp
  show "remove plain_semver busy_windows repo ''v9.1.0'' after_install
     = (Done_error (SysError ''EBUSY''), after_install\<lparr>files := busy_left\<rparr>)"
    using remove_cases [of plain_semver busy_windows repo "''v9.1.0''" after_install]
      clean_v910 valid_910 exists_910_busy rimraf_910_busy
    by simp
qed

subsection \<open>install\<close>

text \<open>
  C4: for a valid specifier whose install directory exists, \<open>install\<close> returns the
  cleaned version at once, whatever the fuel, and leaves the state as it is: no
  request is added to \<open>requests\<close> and the file system is not touched.
\<close>

theorem install_existing:
  "truthy (valid sv (clean sv v) None) \<and> clean sv v = Some version
     \<and> existsSync pf (files m) (path_join repoPath version)
   \<longrightarrow> install fuel sv pf repoPath v m = Some (Done version, m)"
  by (auto simp: install_def Let_def)

text \<open>
  A first install of \<open>v9.1.0\<close> into the empty repository makes one request; the
  second call finds the directory and returns the same version with the state
  unchanged.
\<close>

theorem install_existing_witness:
  "install 3 plain_semver windows repo ''v9.1.0'' (start empty_repo) = Some (Done ''9.1.0'', after_install)
   \<and> requests after_install = [''https://codeload.github.com/npm/cli/tar.gz/v9.1.0'']
   \<and> install 0 plain_semver windows repo ''v9.1.0'' after_install = Some (Done ''9.1.0'', after_install)"
  using install_existing [of plain_semver "''v9.1.0''" "''9.1.0''" windows after_install repo 0]
    first_install clean_v910 valid_910 exists_910
  by (simp add: after_install_def)

subsection \<open>listInstalled\<close>

lemma js_insert_installed:
  "js_insert (installed_order compareable) x ys = Inr (insort_key compareable x ys)"
  by (induction ys) (auto simp: installed_order_def bind_res_def)

lemma js_sort_installed:
  "js_sort (installed_order compareable) xs = Inr (sort_key compareable xs)"
  by (induction xs) (simp_all add: js_insert_installed bind_res_def)

lemma filter_valid_plain:
  assumes "\<forall>x \<in> set ls. \<forall>i. truthy (valid sv (Some x) (Some i)) = truthy (valid sv (Some x) None)"
  shows "filter_valid sv ls = filter (\<lambda>x. truthy (valid sv (Some x) None)) ls"
proof -
  let ?z = "zip ls [0 ..< length ls]"
  have "filter (\<lambda>(entry, index). truthy (valid sv (Some entry) (Some index))) ?z
        = filter ((\<lambda>x. truthy (valid sv (Some x) None)) \<circ> fst) ?z"
    using assms by (intro filter_cong) (auto dest: set_zip_leftD)
  then have "filter_valid sv ls = map fst (filter ((\<lambda>x. truthy (valid sv (Some x) None)) \<circ> fst) ?z)"
    by (simp add: filter_valid_def)
  also have "\<dots> = filter (\<lambda>x. truthy (valid sv (Some x) None)) (map fst ?z)"
    by (simp only: filter_map)
  also have "map fst ?z = ls" by simp
  finally show ?thesis .
qed

text \<open>
  When the library's \<open>valid\<close> answers for every entry the same whatever number it
  is given as second argument: on the first call, with the repository listed as
  \<open>entries\<close>, \<open>listInstalled\<close> returns (and caches) the entries that are valid
  versions and no others, in ascending order of \<open>compareable\<close>; and if
  \<open>compareable\<close> tells the valid entries apart, any other listing order of the same
  entries gives the same list.
\<close>

lemma listInstalled_sorted:
  assumes first: "installedCache m = None"
    and listing: "readdir pf (files m) repoPath = Inr entries"
    and opts: "\<forall>x \<in> set (map d_name entries). \<forall>i.
                 truthy (valid sv (Some x) (Some i)) = truthy (valid sv (Some x) None)"
  shows "\<exists>ls. listInstalled sv pf compareable repoPath m = (Inr ls, m\<lparr>installedCache := Some ls\<rparr>)
      \<and> sorted (map compareable ls)
      \<and> mset ls = mset (filter (\<lambda>x. truthy (valid sv (Some x) None)) (map d_name entries))
      \<and> (inj_on compareable {x \<in> set (map d_name entries). truthy (valid sv (Some x) None)} \<longrightarrow>
           (\<forall>m2 entries2.
               installedCache m2 = None \<and> readdir pf (files m2) repoPath = Inr entries2
               \<and> mset (map d_name entries2) = mset (map d_name entries)
             \<longrightarrow> fst (listInstalled sv pf compareable repoPath m2) = Inr ls))"
proof -
  let ?ok = "\<lambda>x. truthy (valid sv (Some x) None)"
  let ?names = "map d_name entries"
  let ?ls = "sort_key compareable (filter ?ok ?names)"
  have run: "listInstalled sv pf compareable repoPath m = (Inr ?ls, m\<lparr>installedCache := Some ?ls\<rparr>)"
    using first listing filter_valid_plain [OF opts]
    by (simp add: listInstalled_def js_sort_installed)
  have perm: "fst (listInstalled sv pf compareable repoPath m2) = Inr ?ls"
    if inj: "inj_on compareable {x \<in> set ?names. ?ok x}"
      and m2: "installedCache m2 = None" "readdir pf (files m2) repoPath = Inr entries2"
        "mset (map d_name entries2) = mset ?names"
    for m2 entries2
  proof -
    let ?names2 = "map d_name entries2"
    from m2(3) have same: "set ?names2 = set ?names" by (rule mset_eq_setD)
    with opts have "\<forall>x \<in> set ?names2. \<forall>i.
        truthy (valid sv (Some x) (Some i)) = truthy (valid sv (Some x) None)" by simp
    from filter_valid_plain [OF this] m2(1,2)
    have "fst (listInstalled sv pf compareable repoPath m2)
          = Inr (sort_key compareable (filter ?ok ?names2))"
      by (simp add: listInstalled_def js_sort_installed)
    moreover have "sort_key compareable (filter ?ok ?names2) = ?ls"
    proof (rule sort_key_inj_key_eq)
      show "mset (filter ?ok ?names2) = mset ?ls" using m2(3) by simp
      have "set (filter ?ok ?names2) \<subseteq> {x \<in> set ?names. ?ok x}" using same by auto
      with inj show "inj_on compareable (set (filter ?ok ?names2))"
        by (rule inj_on_subset)
      show "sorted (map compareable ?ls)" by simp
    qed
    ultimately show ?thesis by simp
  qed
  from run perm show ?thesis by (intro exI [of _ ?ls]) auto
qed

lemma listing_repo: "readdir windows (files (start listed_repo)) repo = Inr listed_entries"
  by code_simp

lemma listed_run:
  "fst (listInstalled plain_semver windows plain_key repo (start listed_repo))
     = Inr [''2.5.3'', ''9.1.0'', ''10.2.0'']"
  by code_simp

lemma listed_valid:
  "filter (\<lambda>x. truthy (valid plain_semver (Some x) None)) (map d_name listed_entries)
     = [''10.2.0'', ''9.1.0'', ''2.5.3'']"
  by code_simp

lemma plain_valid_cases:
  "truthy (valid plain_semver (Some x) opts)
     = (if is_loose opts then truthy (loose_version x) else truthy (strict_version x))"
  by (simp add: plain_semver_def)

lemma listed_agree:
  "\<forall>x \<in> set (map d_name listed_entries). truthy (loose_version x) = truthy (strict_version x)"
  by code_simp

text \<open>
  The repository with \<open>README\<close>, 10.2.0, 9.1.0 and 2.5.3, listed in that order:
  the result is 2.5.3, 9.1.0, 10.2.0.
\<close>

lemma listInstalled_sorted_example:
  "fst (listInstalled plain_semver windows plain_key repo (start listed_repo))
     = Inr [''2.5.3'', ''9.1.0'', ''10.2.0'']
   \<and> sorted (map plain_key [''2.5.3'', ''9.1.0'', ''10.2.0''])
   \<and> mset [''2.5.3'', ''9.1.0'', ''10.2.0''] = mset [''10.2.0'', ''9.1.0'', ''2.5.3'']"
proof -
  have c: "installedCache (start listed_repo) = None" by (simp add: start_def)
  have o: "\<forall>x \<in> set (map d_name listed_entries). \<forall>i.
      truthy (valid plain_semver (Some x) (Some i)) = truthy (valid plain_semver (Some x) None)"
    using listed_agree by (simp add: plain_valid_cases is_loose_def)
  from listInstalled_sorted [OF c listing_repo o, of plain_key] obtain ls where
    ls: "listInstalled plain_semver windows plain_key repo (start listed_repo)
          = (Inr ls, (start listed_repo)\<lparr>installedCache := Some ls\<rparr>)"
      "sorted (map plain_key ls)"
      "mset ls = mset (filter (\<lambda>x. truthy (valid plain_semver (Some x) None))
                        (map d_name listed_entries))"
    by blast
  from ls(1) listed_run have "ls = [''2.5.3'', ''9.1.0'', ''10.2.0'']" by simp
  with ls(2,3) listed_run listed_valid show ?thesis by simp
qed

text \<open>
  C8: \<open>listInstalled\<close> returns the entries that are valid semantic versions, whatever
  the order of the listing. The source calls \<open>ls.filter(semver.valid)\<close>, which hands
  each entry's index to \<open>valid\<close> as its second argument: the first entry is parsed
  strictly, every later one loosely. The directory \<open>01.0.0\<close> is not a valid version;
  listed first it is dropped, listed second it is kept.
\<close>

theorem listInstalled_index_as_loose:
  "filter_valid plain_semver [''01.0.0'', ''2.0.0''] = [''2.0.0'']
   \<and> filter_valid plain_semver [''2.0.0'', ''01.0.0''] = [''2.0.0'', ''01.0.0'']
   \<and> fst (listInstalled plain_semver windows plain_key repo (start stray_first))
       = Inr [''2.0.0'']
   \<and> fst (listInstalled plain_semver windows plain_key repo (start stray_second))
       = Inr [''01.0.0'', ''2.0.0'']"
  by code_simp

section \<open>Properties of the symbolic link repair\<close>

subsection \<open>Fuel\<close>

text \<open>A walk that ends with some fuel ends the same way with more.\<close>

lemma walk_entries_more_fuel:
  assumes sub: "\<And>d m r. resolveLinkedWorkspaces fuel pf d m = Some r \<Longrightarrow>
                  resolveLinkedWorkspaces fuel' pf d m = Some r"
  shows "walk_entries fuel pf dirPath entries k dP m = Some r \<Longrightarrow>
         walk_entries fuel' pf dirPath entries k dP m = Some r"
proof (induction entries arbitrary: k dP m)
  case Nil
  then show ?case by simp
next
  case (Cons entry rest)
  show ?case
  proof (cases "d_kind entry")
    case IsFile
    with Cons.prems have "walk_entries fuel pf dirPath rest k dP m = Some r" by simp
    from Cons.IH [OF this] IsFile show ?thesis by simp
  next
    case IsDirectory
    with Cons.prems obtain r1 m1 where
      a: "resolveLinkedWorkspaces fuel pf (path_join dirPath (d_name entry)) m = Some (r1, m1)"
      and w: "walk_entries fuel pf dirPath rest k (dP @ [r1]) m1 = Some r"
      by (auto split: option.splits)
    from sub [OF a] Cons.IH [OF w] IsDirectory show ?thesis by simp
  next
    case IsSymbolicLink
    show ?thesis
    proof (cases "fix_symlink pf dirPath (path_join dirPath (d_name entry)) m")
      case (Pair e m1)
      show ?thesis
      proof (cases e)
        case None
        with Pair IsSymbolicLink Cons.prems
        have "walk_entries fuel pf dirPath rest (k + 1) dP m1 = Some r" by simp
        from Cons.IH [OF this] None Pair IsSymbolicLink show ?thesis by simp
      next
        case (Some err)
        with Pair IsSymbolicLink Cons.prems show ?thesis by simp
      qed
    qed
  qed
qed

lemma one_more_fuel:
  "resolveLinkedWorkspaces fuel pf d m = Some r \<Longrightarrow>
   resolveLinkedWorkspaces (Suc fuel) pf d m = Some r"
proof (induction fuel arbitrary: d m r)
  case 0
  then show ?case by simp
next
  case (Suc fuel)
  show ?case
  proof (cases "readdir pf (files m) d")
    case (Inl code)
    with Suc.prems show ?thesis by simp
  next
    case (Inr entries)
    with Suc.prems have "walk_entries fuel pf d entries 0 [] m = Some r" by simp
    from walk_entries_more_fuel [of fuel pf "Suc fuel", OF Suc.IH this] Inr
    show ?thesis by simp
  qed
qed

lemma more_fuel:
  "resolveLinkedWorkspaces fuel pf d m = Some r \<Longrightarrow>
   resolveLinkedWorkspaces (fuel + extra) pf d m = Some r"
  by (induction extra) (auto dest: one_more_fuel)

subsection \<open>The count is the number of repairs\<close>

lemma counted_append: "counted (rs @ [r]) = counted rs + (case r of Inl e \<Rightarrow> 0 | Inr n \<Rightarrow> n)"
  by (induction rs rule: counted.induct) (auto split: sum.splits)

lemma promise_all_counted: "promise_all rs k = Inr n \<Longrightarrow> n = k + counted rs"
  by (induction rs k arbitrary: n rule: promise_all.induct)
     (auto simp: bind_res_def split: sum.splits)

lemma fix_symlink_log:
  "fix_symlink pf dirPath filePath m = (None, m') \<Longrightarrow>
   length (fix_log m') = Suc (length (fix_log m))"
  by (auto simp: fix_symlink_def Let_def split: sum.splits prod.splits option.splits)

lemma promise_all_settled: "promise_all rs k = Inr n \<Longrightarrow> \<forall>r \<in> set rs. \<not> isl r"
  by (induction rs k arbitrary: n rule: promise_all.induct)
     (auto simp: bind_res_def split: sum.splits)

lemma walk_entries_settled:
  "walk_entries fuel pf dirPath entries k dP m = Some (Inr n, m') \<Longrightarrow> \<forall>r \<in> set dP. \<not> isl r"
proof (induction entries arbitrary: k dP m)
  case Nil
  then show ?case by (auto dest: promise_all_settled)
next
  case (Cons entry rest)
  show ?case
  proof (cases "d_kind entry")
    case IsFile
    with Cons.prems have "walk_entries fuel pf dirPath rest k dP m = Some (Inr n, m')" by simp
    from Cons.IH [OF this] show ?thesis .
  next
    case IsDirectory
    with Cons.prems obtain r m1 where
      "walk_entries fuel pf dirPath rest k (dP @ [r]) m1 = Some (Inr n, m')"
      by (auto split: option.splits)
    from Cons.IH [OF this] show ?thesis by simp
  next
    case IsSymbolicLink
    with Cons.prems obtain m1 where
      "walk_entries fuel pf dirPath rest (k + 1) dP m1 = Some (Inr n, m')"
      by (auto split: option.splits prod.splits)
    from Cons.IH [OF this] show ?thesis .
  qed
qed

lemma walk_entries_log:
  assumes sub: "\<And>d m n m'. resolveLinkedWorkspaces fuel pf d m = Some (Inr n, m') \<Longrightarrow>
                  length (fix_log m') = length (fix_log m) + n"
  shows "walk_entries fuel pf dirPath entries k dP m = Some (Inr n, m') \<Longrightarrow>
         length (fix_log m') + k + counted dP = length (fix_log m) + n"
proof (induction entries arbitrary: k dP m)
  case Nil
  then show ?case by (auto dest: promise_all_counted)
next
  case (Cons entry rest)
  show ?case
  proof (cases "d_kind entry")
    case IsFile
    with Cons.prems have "walk_entries fuel pf dirPath rest k dP m = Some (Inr n, m')" by simp
    from Cons.IH [OF this] show ?thesis .
  next
    case IsDirectory
    with Cons.prems obtain r m1 where
      r: "resolveLinkedWorkspaces fuel pf (path_join dirPath (d_name entry)) m = Some (r, m1)"
      and w: "walk_entries fuel pf dirPath rest k (dP @ [r]) m1 = Some (Inr n, m')"
      by (auto split: option.splits)
    from Cons.IH [OF w] have
      c: "length (fix_log m') + k + counted (dP @ [r]) = length (fix_log m1) + n" .
    show ?thesis
    proof (cases r)
      case (Inl e)
      with walk_entries_settled [OF w] show ?thesis by auto
    next
      case (Inr j)
      with sub r have "length (fix_log m1) = length (fix_log m) + j" by blast
      with c Inr show ?thesis by (simp add: counted_append)
    qed
  next
    case IsSymbolicLink
    with Cons.prems obtain m1 where
      f: "fix_symlink pf dirPath (path_join dirPath (d_name entry)) m = (None, m1)"
      and w: "walk_entries fuel pf dirPath rest (k + 1) dP m1 = Some (Inr n, m')"
      by (auto split: option.splits prod.splits)
    from Cons.IH [OF w] fix_symlink_log [OF f] show ?thesis by simp
  qed
qed

lemma resolveLinkedWorkspaces_log:
  "resolveLinkedWorkspaces fuel pf dirPath m = Some (Inr n, m') \<Longrightarrow>
   length (fix_log m') = length (fix_log m) + n"
proof (induction fuel arbitrary: dirPath m n m')
  case 0
  then show ?case by simp
next
  case (Suc fuel)
  from Suc.prems obtain entries where
    "walk_entries fuel pf dirPath entries 0 [] m = Some (Inr n, m')"
    by (auto split: sum.splits)
  from walk_entries_log [of fuel pf, OF Suc.IH this] show ?case by simp
qed

subsection \<open>Paths\<close>

lemma below_iff: "below p q \<longleftrightarrow> (\<exists>r. q = p @ r)"
  unfolding below_def by (metis append_take_drop_id append_eq_conv_conj)

lemma below_refl [simp]: "below p p"
  by (simp add: below_def)

lemma below_append [simp]: "below p (p @ r)"
  by (simp add: below_def)

lemma below_trans: "below a b \<Longrightarrow> below b c \<Longrightarrow> below a c"
  by (auto simp: below_iff)

lemma below_length: "below p q \<Longrightarrow> length p \<le> length q"
  by (auto simp: below_iff)

lemma below_comparable: "below a p \<Longrightarrow> below b p \<Longrightarrow> below a b \<or> below b a"
  by (auto simp: below_iff append_eq_append_conv2)

lemma child_of_iff: "child_of p q \<longleftrightarrow> (\<exists>x. q = p @ [x])"
  unfolding child_of_def by (metis append_butlast_last_id butlast_snoc snoc_eq_iff_butlast)

lemma split_path_plain: "\<forall>c \<in> set s. \<not> is_sep c \<Longrightarrow> split_path s = [s]"
  by (induction s) auto

lemma path_join_plain: "plain_name s \<Longrightarrow> path_join d s = d @ [s]"
  by (simp add: path_join_def plain_name_def split_path_plain)

subsection \<open>Settled promises\<close>

lemma counted_app: "counted (a @ b) = counted a + counted b"
  by (induction a rule: counted.induct) auto

lemma counted_zeros [simp]: "counted (replicate j (Inr 0)) = 0"
  by (induction j) auto

lemma promise_all_sum: "\<forall>r \<in> set rs. \<not> isl r \<Longrightarrow> promise_all rs k = Inr (k + counted rs)"
  by (induction rs k rule: promise_all.induct) (auto simp: bind_res_def)

subsection \<open>Entries that change nothing\<close>

lemma walk_quiet:
  "\<forall>e \<in> set es. quiet fuel pf dirPath m e \<Longrightarrow>
   walk_entries fuel pf dirPath (es @ rest) k dP m
     = walk_entries fuel pf dirPath rest k (dP @ replicate (dirs es) (Inr 0)) m"
proof (induction es arbitrary: dP)
  case Nil
  then show ?case by (simp add: dirs_def)
next
  case (Cons e es)
  then have q: "quiet fuel pf dirPath m e" and qs: "\<forall>e \<in> set es. quiet fuel pf dirPath m e"
    by simp_all
  show ?case
  proof (cases "d_kind e = IsDirectory")
    case True
    with q have r: "resolveLinkedWorkspaces fuel pf (path_join dirPath (d_name e)) m = Some (Inr 0, m)"
      by (simp add: quiet_def)
    have "walk_entries fuel pf dirPath ((e # es) @ rest) k dP m
          = walk_entries fuel pf dirPath (es @ rest) k (dP @ [Inr 0]) m"
      using True r by simp
    also have "\<dots> = walk_entries fuel pf dirPath rest k ((dP @ [Inr 0]) @ replicate (dirs es) (Inr 0)) m"
      using Cons.IH [OF qs] .
    also have "(dP @ [Inr 0]) @ replicate (dirs es) (Inr 0) = dP @ replicate (dirs (e # es)) (Inr 0)"
      using True by (simp add: dirs_def)
    finally show ?thesis .
  next
    case False
    with q have f: "d_kind e = IsFile" by (simp add: quiet_def)
    have "walk_entries fuel pf dirPath ((e # es) @ rest) k dP m
          = walk_entries fuel pf dirPath (es @ rest) k dP m"
      using f by simp
    also have "\<dots> = walk_entries fuel pf dirPath rest k (dP @ replicate (dirs es) (Inr 0)) m"
      using Cons.IH [OF qs] .
    also have "dirs es = dirs (e # es)" using f by (simp add: dirs_def)
    finally show ?thesis .
  qed
qed

subsection \<open>The table\<close>

lemma table_fs_simps [simp]:
  "readdir (table_fs j l a) = table_readdir"
  "readlink (table_fs j l a) = table_readlink"
  "unlink (table_fs j l a) = table_unlink"
  "symlink (table_fs j l a) = table_symlink j"
  "rename (table_fs j l a) = table_rename"
  by (simp_all add: table_fs_def)

lemma table_readdir_Dir:
  "map_of t q = Some Dir \<Longrightarrow> table_readdir t q = Inr (map entry_of (listed t q))"
  by (simp add: table_readdir_def listed_def entry_of_def split_def)

lemma table_readdir_cong:
  "map_of t2 q = map_of t q \<Longrightarrow> listed t2 q = listed t q \<Longrightarrow>
   table_readdir t2 q = table_readdir t q"
  unfolding table_readdir_def listed_def split_def by (simp split: option.splits node.splits)

lemma map_of_relocate:
  "q \<noteq> lp \<Longrightarrow> \<not> below src q \<Longrightarrow> \<not> below lp q \<Longrightarrow> map_of (relocate src lp t) q = map_of t q"
  by (induction t) (auto simp: relocate_def)

lemma listed_relocate:
  assumes "\<not> below q lp" "\<not> below lp q" "\<forall>x. \<not> below src (q @ [x])"
  shows "listed (relocate src lp t) q = listed t q"
proof (induction t)
  case Nil
  then show ?case by (simp add: relocate_def listed_def)
next
  case (Cons e t)
  obtain p n where e: "e = (p, n)" by (cases e)
  have lp: "\<not> child_of q lp"
    using assms(1) by (auto simp: child_of_iff)
  have moved: "\<not> child_of q (lp @ r)" for r
  proof
    assume "child_of q (lp @ r)"
    then obtain x where x: "lp @ r = q @ [x]" by (auto simp: child_of_iff)
    show False
    proof (cases r rule: rev_cases)
      case Nil
      with x assms(1) show False by (auto simp: below_iff)
    next
      case (snoc r' y)
      with x have "q = lp @ r'" by simp
      with assms(2) show False by simp
    qed
  qed
  have src: "below src p \<Longrightarrow> \<not> child_of q p"
    using assms(3) by (auto simp: child_of_iff)
  from Cons.IH have ih: "listed (relocate src lp t) q = listed t q" .
  have "listed (relocate src lp (e # t)) q
        = (if p = lp then [] else if below src p then [] else (if child_of q p then [e] else []))
          @ listed (relocate src lp t) q"
    using e moved by (auto simp: relocate_def listed_def)
  also have "\<dots> = listed (e # t) q"
    using e ih lp src by (auto simp: listed_def)
  finally show ?case .
qed

lemma readdir_relocate:
  assumes "below root q" "\<not> below root src" "\<not> below src root" "\<not> below q lp" "\<not> below lp q"
  shows "table_readdir (relocate src lp t) q = table_readdir t q"
proof (rule table_readdir_cong)
  have nsq: "\<not> below src q"
  proof
    assume "below src q"
    with assms(1) have "below src root \<or> below root src"
      using below_comparable [of src q root] by blast
    with assms(2,3) show False by blast
  qed
  have "q \<noteq> lp" using assms(4) by auto
  with nsq assms(5) show "map_of (relocate src lp t) q = map_of t q"
    by (simp add: map_of_relocate)
  have "\<not> below src (q @ [x])" for x
  proof
    assume u: "below src (q @ [x])"
    then obtain r where r: "q @ [x] = src @ r" by (auto simp: below_iff)
    show False
    proof (cases r rule: rev_cases)
      case Nil
      with r have "src = q @ [x]" by simp
      with assms(1) have "below root src" by (auto simp: below_iff)
      with assms(2) show False by blast
    next
      case (snoc r' y)
      with r have "q = src @ r'" by simp
      with nsq show False by simp
    qed
  qed
  with assms(4,5) show "listed (relocate src lp t) q = listed t q"
    by (intro listed_relocate) auto
qed

lemma promise_all_zeros: "promise_all (replicate j (Inr 0)) k = Inr k"
  using promise_all_sum [of "replicate j (Inr 0)" k] by simp

lemma listed_child: "e \<in> set (listed t q) \<Longrightarrow> e \<in> set t \<and> (\<exists>x. fst e = q @ [x])"
  by (auto simp: listed_def child_of_iff)

lemma plain_walk:
  assumes pf: "pf = table_fs j l a" and d: "distinct (map fst t)"
  shows "plain_below t q \<Longrightarrow>
     (\<forall>q'. below q q' \<longrightarrow> table_readdir (files m) q' = table_readdir t q') \<Longrightarrow>
     (\<forall>(p, n) \<in> set t. below q p \<longrightarrow> length p < length q + fuel) \<Longrightarrow>
     resolveLinkedWorkspaces fuel pf q m = Some (Inr 0, m)"
proof (induction fuel arbitrary: q)
  case 0
  from "0.prems"(1) have "(q, Dir) \<in> set t" by (auto simp: plain_below_def dest: map_of_SomeD)
  with "0.prems"(3) show ?case by auto
next
  case (Suc fuel)
  from Suc.prems(1) have qd: "map_of t q = Some Dir" by (simp add: plain_below_def)
  with Suc.prems(2) have rd: "readdir pf (files m) q = Inr (map entry_of (listed t q))"
    by (simp add: pf table_readdir_Dir)
  have quiet: "quiet fuel pf q m (entry_of e)" if e: "e \<in> set (listed t q)" for e
  proof -
    obtain p n where pn: "e = (p, n)" by (cases e)
    from listed_child [OF e] pn obtain x where t: "(p, n) \<in> set t" and x: "p = q @ [x]" by auto
    from x have u: "below q p" "p \<noteq> q" by simp_all
    with Suc.prems(1) t have plain: "plain_name x" and k: "kind_of n \<noteq> IsSymbolicLink"
      using x by (auto simp: plain_below_def)
    show ?thesis
    proof (cases n)
      case (File c)
      with pn show ?thesis by (simp add: quiet_def entry_of_def)
    next
      case Dir
      with t d have mp: "map_of t p = Some Dir" by simp
      have below: "plain_below t p"
        unfolding plain_below_def
      proof (intro conjI ballI)
        show "map_of t p = Some Dir" by (rule mp)
        fix e' assume e': "e' \<in> set t"
        obtain p' n' where pn': "e' = (p', n')" by (cases e')
        show "case e' of (p', n') \<Rightarrow> below p p' \<and> p' \<noteq> p \<longrightarrow>
            plain_name (last p') \<and> map_of t (butlast p') = Some Dir \<and> kind_of n' \<noteq> IsSymbolicLink"
        proof (simp only: pn' prod.case, intro impI)
          assume a: "below p p' \<and> p' \<noteq> p"
          with u have "below q p'" by (blast intro: below_trans)
          moreover from a x have "p' \<noteq> q" by (auto simp: below_iff)
          ultimately show "plain_name (last p') \<and> map_of t (butlast p') = Some Dir
              \<and> kind_of n' \<noteq> IsSymbolicLink"
            using Suc.prems(1) e' pn' by (auto simp: plain_below_def)
        qed
      qed
      have agree: "\<forall>q'. below p q' \<longrightarrow> table_readdir (files m) q' = table_readdir t q'"
        using Suc.prems(2) u(1) by (blast intro: below_trans)
      have bound: "\<forall>(p', n') \<in> set t. below p p' \<longrightarrow> length p' < length p + fuel"
      proof (intro ballI)
        fix e' assume e': "e' \<in> set t"
        obtain p' n' where pn': "e' = (p', n')" by (cases e')
        show "case e' of (p', n') \<Rightarrow> below p p' \<longrightarrow> length p' < length p + fuel"
        proof (simp only: pn' prod.case, intro impI)
          assume "below p p'"
          with u have "below q p'" by (blast intro: below_trans)
          with Suc.prems(3) e' pn' have "length p' < length q + Suc fuel" by auto
          with x show "length p' < length p + fuel" by simp
        qed
      qed
      from Suc.IH [OF below agree bound]
      have "resolveLinkedWorkspaces fuel pf p m = Some (Inr 0, m)" .
      with Dir pn x plain show ?thesis
        by (simp add: quiet_def entry_of_def path_join_plain)
    next
      case (Symlink s)
      with k show ?thesis by simp
    next
      case (Junction s)
      with k show ?thesis by simp
    qed
  qed
  then have "\<forall>e \<in> set (map entry_of (listed t q)). quiet fuel pf q m e" by auto
  from walk_quiet [OF this, of "[]" 0 "[]"]
  have "walk_entries fuel pf q (map entry_of (listed t q)) 0 [] m = Some (Inr 0, m)"
    by (simp add: promise_all_zeros)
  with rd show ?case by simp
qed

lemma map_of_unlinked:
  "map_of (filter (\<lambda>(q, n). q \<noteq> k) t) q' = (if q' = k then None else map_of t q')"
  by (induction t) auto

lemma fix_symlink_table:
  assumes m: "files m = t" and link: "map_of t lp = Some (Symlink tgt)"
    and src: "map_of t (path_join d tgt) = Some Dir"
    and out: "\<not> below (path_join d tgt) lp"
    and parent: "map_of t (butlast lp) = Some Dir"
  shows "fix_symlink (table_fs False l a) d lp m
     = (None, m\<lparr>files := relocate (path_join d tgt) lp t, fix_log := fix_log m @ [(lp, tgt)]\<rparr>)"
proof -
  let ?src = "path_join d tgt"
  let ?t1 = "filter (\<lambda>(q, n). q \<noteq> lp) t"
  have ne: "?src \<noteq> lp" using link src by auto
  have pl: "butlast lp \<noteq> lp" using link parent by auto
  have u: "table_unlink lp t = (None, ?t1)"
    using link by (simp add: table_unlink_def)
  have s: "table_symlink False tgt lp ?t1 = (Some ''EPERM'', ?t1)"
    by (simp add: table_symlink_def)
  have r: "table_rename ?src lp ?t1 = (None, relocate ?src lp t)"
    using ne pl src out parent
    by (simp add: table_rename_def map_of_unlinked relocate_def)
  show ?thesis
    using m link u s r by (simp add: fix_symlink_def table_readlink_def)
qed

lemma ancestor_dir:
  assumes wf: "well_formed t root" and q: "below root q"
  shows "(q @ r, n) \<in> set t \<Longrightarrow> r \<noteq> [] \<Longrightarrow> map_of t q = Some Dir"
proof (induction r arbitrary: n rule: rev_induct)
  case Nil
  then show ?case by simp
next
  case (snoc x r)
  let ?p = "q @ r @ [x]"
  from q have "below root ?p" using below_trans [of root q ?p] by simp
  moreover from q have "?p \<noteq> root" by (auto dest: below_length)
  ultimately have parent: "map_of t (butlast ?p) = Some Dir"
    using wf snoc.prems(1) by (auto simp: well_formed_def)
  have b: "butlast ?p = q @ r" by (simp add: butlast_append)
  show ?case
  proof (cases "r = []")
    case True
    with parent b show ?thesis by simp
  next
    case False
    from parent b have "(q @ r, Dir) \<in> set t" by (auto dest: map_of_SomeD)
    from snoc.IH [OF this False] show ?thesis .
  qed
qed

lemma sibling_quiet:
  assumes pf: "pf = table_fs j l a" and r: "repairable t root lp tgt src"
    and q: "below root q" and e: "(q @ [x], n) \<in> set t" and off: "\<not> below (q @ [x]) lp"
    and agree: "\<forall>q'. below (q @ [x]) q' \<longrightarrow> table_readdir (files mm) q' = table_readdir t q'"
    and bound: "\<forall>(p, n) \<in> set t. below q p \<longrightarrow> length p < length q + Suc fuel"
  shows "quiet fuel pf q mm (entry_of (q @ [x], n))"
proof -
  let ?p = "q @ [x]"
  from r have d: "distinct (map fst t)" and wf: "well_formed t root"
    and ol: "only_link t root lp tgt" by (simp_all add: repairable_def)
  from q have up: "below root ?p" using below_trans [of root q ?p] by simp
  from q have pr: "?p \<noteq> root" by (auto dest: below_length)
  from wf e up pr have plain: "plain_name x" by (auto simp: well_formed_def)
  from off have "?p \<noteq> lp" by auto
  with ol e up have k: "kind_of n \<noteq> IsSymbolicLink" by (auto simp: only_link_def)
  show ?thesis
  proof (cases n)
    case (File c)
    then show ?thesis by (simp add: quiet_def entry_of_def)
  next
    case Dir
    with e d have mp: "map_of t ?p = Some Dir" by simp
    have below: "plain_below t ?p"
      unfolding plain_below_def
    proof (intro conjI ballI)
      show "map_of t ?p = Some Dir" by (rule mp)
      fix e' assume e': "e' \<in> set t"
      obtain p' n' where pn': "e' = (p', n')" by (cases e')
      show "case e' of (p', n') \<Rightarrow> below ?p p' \<and> p' \<noteq> ?p \<longrightarrow>
            plain_name (last p') \<and> map_of t (butlast p') = Some Dir \<and> kind_of n' \<noteq> IsSymbolicLink"
      proof (simp only: pn' prod.case, intro impI)
        assume a: "below ?p p' \<and> p' \<noteq> ?p"
        with up have u': "below root p'" by (blast intro: below_trans)
        from a q have ne: "p' \<noteq> root"
          using below_length [of ?p p'] below_length [of root q] by auto
        from a off have nl: "p' \<noteq> lp" by auto
        from wf e' pn' u' ne have "plain_name (last p') \<and> map_of t (butlast p') = Some Dir"
          by (auto simp: well_formed_def)
        moreover from ol e' pn' u' nl have "kind_of n' \<noteq> IsSymbolicLink"
          by (auto simp: only_link_def)
        ultimately show "plain_name (last p') \<and> map_of t (butlast p') = Some Dir
              \<and> kind_of n' \<noteq> IsSymbolicLink" by simp
      qed
    qed
    have b: "\<forall>(p', n') \<in> set t. below ?p p' \<longrightarrow> length p' < length ?p + fuel"
    proof (intro ballI)
      fix e' assume e': "e' \<in> set t"
      obtain p' n' where pn': "e' = (p', n')" by (cases e')
      show "case e' of (p', n') \<Rightarrow> below ?p p' \<longrightarrow> length p' < length ?p + fuel"
      proof (simp only: pn' prod.case, intro impI)
        assume "below ?p p'"
        then have "below q p'" using below_trans [of q ?p p'] by simp
        with bound e' pn' have "length p' < length q + Suc fuel" by auto
        then show "length p' < length ?p + fuel" by simp
      qed
    qed
    from plain_walk [OF pf d below agree b]
    have "resolveLinkedWorkspaces fuel pf ?p mm = Some (Inr 0, mm)" .
    with Dir plain show ?thesis
      by (simp add: quiet_def entry_of_def path_join_plain)
  next
    case (Symlink s)
    with k show ?thesis by simp
  next
    case (Junction s)
    with k show ?thesis by simp
  qed
qed

lemma below_cons_same: "below (q @ [y]) (q @ x # r) \<Longrightarrow> y = x"
  by (auto simp: below_iff)

lemma promise_all_zeros2:
  "promise_all (replicate i (Inr 0) @ replicate j (Inr 0)) k = Inr k"
  using promise_all_zeros [of "i + j" k] by (simp add: replicate_add)

lemma promise_all_one:
  "promise_all ((replicate i (Inr 0) @ [Inr n]) @ replicate j (Inr 0)) k = Inr (k + n)"
proof -
  have "\<forall>r \<in> set ((replicate i (Inr 0 :: js_error + nat) @ [Inr n]) @ replicate j (Inr 0)). \<not> isl r"
    by auto
  from promise_all_sum [OF this] show ?thesis by (simp add: counted_app)
qed

lemma walk_to_link:
  assumes pf: "pf = table_fs False l a" and r: "repairable t root lp tgt src"
  shows "below root q \<Longrightarrow> below q lp \<Longrightarrow> q \<noteq> lp \<Longrightarrow> files m = t \<Longrightarrow>
     (\<forall>(p, n) \<in> set t. below q p \<longrightarrow> length p < length q + fuel) \<Longrightarrow>
     resolveLinkedWorkspaces fuel pf q m
       = Some (Inr 1, m\<lparr>files := relocate src lp t, fix_log := fix_log m @ [(lp, tgt)]\<rparr>)"
proof (induction fuel arbitrary: q m)
  case 0
  from r have "(lp, Symlink tgt) \<in> set t"
    by (auto simp: repairable_def only_link_def dest: map_of_SomeD)
  with "0.prems"(2,5) have "length lp < length q" by auto
  with below_length [OF "0.prems"(2)] show ?case by simp
next
  case (Suc fuel)
  from r have d: "distinct (map fst t)" and wf: "well_formed t root"
    and ol: "only_link t root lp tgt" and src: "src = path_join (butlast lp) tgt"
    and sd: "map_of t src = Some Dir" and o1: "\<not> below root src" and o2: "\<not> below src root"
    unfolding repairable_def by blast+
  from ol have link: "map_of t lp = Some (Symlink tgt)" and lroot: "below root lp"
    by (simp_all add: only_link_def)
  then have lin: "(lp, Symlink tgt) \<in> set t" by (auto dest: map_of_SomeD)
  let ?m2 = "m\<lparr>files := relocate src lp t, fix_log := fix_log m @ [(lp, tgt)]\<rparr>"
  from Suc.prems(2,3) obtain x rest where lp: "lp = q @ x # rest"
    by (cases "drop (length q) lp") (auto simp: below_iff)
  let ?c = "q @ [x]"
  have qd: "map_of t q = Some Dir"
    using ancestor_dir [OF wf Suc.prems(1), of "x # rest"] lin lp by simp
  with Suc.prems(4) have rd: "readdir pf (files m) q = Inr (map entry_of (listed t q))"
    by (simp add: pf table_readdir_Dir)
  have uc: "below root ?c" using Suc.prems(1) below_trans [of root q ?c] by simp
  have cr: "?c \<noteq> root" using Suc.prems(1) by (auto dest: below_length)
  obtain nc where cin: "(?c, nc) \<in> set t" and nc: "if rest = [] then nc = Symlink tgt else nc = Dir"
  proof (cases "rest = []")
    case True
    with lin lp that show ?thesis by simp
  next
    case False
    have "map_of t ?c = Some Dir"
      using ancestor_dir [OF wf uc, of rest] lin lp False by simp
    then have "(?c, Dir) \<in> set t" by (auto dest: map_of_SomeD)
    with False that show ?thesis by simp
  qed
  from wf cin uc cr have plain: "plain_name x" by (auto simp: well_formed_def)
  then have pj: "path_join q x = ?c" by (rule path_join_plain)
  have ent: "entry_of (q @ [x], n) = \<lparr> d_name = x, d_kind = kind_of n \<rparr>" for n
    by (simp add: entry_of_def)
  have "(?c, nc) \<in> set (listed t q)" using cin by (simp add: listed_def child_of_iff)
  then obtain cs1 cs2 where split: "listed t q = cs1 @ (?c, nc) # cs2"
    by (auto dest: split_list)
  have "distinct (map fst (listed t q))"
    unfolding listed_def using d by (rule distinct_map_filter)
  with split have "?c \<notin> fst ` set cs1 \<and> ?c \<notin> fst ` set cs2" by auto
  then have others: "\<forall>e \<in> set cs1 \<union> set cs2. fst e \<noteq> ?c" by (metis UnE imageI)
  have sib: "quiet fuel pf q mm (entry_of e)"
    if e: "e \<in> set cs1 \<union> set cs2"
      and mm: "files mm = t \<or> files mm = relocate src lp t" for e mm
  proof -
    obtain p n where pn: "e = (p, n)" by (cases e)
    from e split have "e \<in> set (listed t q)" by auto
    from listed_child [OF this] pn obtain y where t: "(p, n) \<in> set t" and y: "p = q @ [y]"
      by auto
    from others e have "fst e \<noteq> ?c" by blast
    with pn y have yx: "y \<noteq> x" by simp
    have off: "\<not> below (q @ [y]) lp" using yx lp by (auto dest: below_cons_same)
    have agree: "\<forall>q'. below (q @ [y]) q' \<longrightarrow> table_readdir (files mm) q' = table_readdir t q'"
    proof (intro allI impI)
      fix q' assume u: "below (q @ [y]) q'"
      then obtain s where s: "q' = q @ y # s" by (auto simp: below_iff)
      have a: "below root q'" using Suc.prems(1) s below_trans [of root q q'] by simp
      have b: "\<not> below q' lp" using yx lp s by (auto simp: below_iff)
      have c: "\<not> below lp q'" using yx lp s by (auto simp: below_iff)
      from mm show "table_readdir (files mm) q' = table_readdir t q'"
        using readdir_relocate [OF a o1 o2 b c, of t] by auto
    qed
    from sibling_quiet [of pf False l a t root lp tgt src q y n mm fuel]
      pf r Suc.prems(1) t y off agree Suc.prems(5) pn
    show ?thesis by simp
  qed
  have q1: "\<forall>e \<in> set (map entry_of cs1). quiet fuel pf q m e"
    using sib Suc.prems(4) by auto
  have q2: "\<forall>e \<in> set (map entry_of cs2). quiet fuel pf q ?m2 e"
    using sib [of _ ?m2] by auto
  let ?z1 = "replicate (dirs (map entry_of cs1)) (Inr 0 :: js_error + nat)"
  let ?z2 = "replicate (dirs (map entry_of cs2)) (Inr 0 :: js_error + nat)"
  have first: "walk_entries fuel pf q (map entry_of (listed t q)) 0 [] m
      = walk_entries fuel pf q (entry_of (?c, nc) # map entry_of cs2) 0 ?z1 m"
    using walk_quiet [OF q1, of "entry_of (?c, nc) # map entry_of cs2" 0 "[]"] split by simp
  have last: "walk_entries fuel pf q (map entry_of cs2) k dP ?m2
      = Some (promise_all (dP @ ?z2) k, ?m2)" for k dP
    using walk_quiet [OF q2, of "[]" k dP] by simp
  have "walk_entries fuel pf q (entry_of (?c, nc) # map entry_of cs2) 0 ?z1 m = Some (Inr 1, ?m2)"
  proof (cases "rest = []")
    case True
    with nc lp have c: "nc = Symlink tgt" "?c = lp" by simp_all
    have bl: "butlast lp = q" using lp True by simp
    have ns: "\<not> below src lp"
    proof
      assume "below src lp"
      with lroot have "below src root \<or> below root src"
        using below_comparable [of src lp root] by blast
      with o1 o2 show False by blast
    qed
    have "fix_symlink pf q lp m = (None, ?m2)"
      using fix_symlink_table [of m t lp tgt q l a] Suc.prems(4) link sd src bl ns qd pf
      by simp
    with pj c(2) have "fix_symlink pf q (path_join q x) m = (None, ?m2)" by simp
    then have "walk_entries fuel pf q (entry_of (?c, nc) # map entry_of cs2) 0 ?z1 m
        = walk_entries fuel pf q (map entry_of cs2) 1 ?z1 ?m2"
      using c(1) by (simp add: ent)
    also have "\<dots> = Some (promise_all (?z1 @ ?z2) 1, ?m2)" by (rule last)
    also have "promise_all (?z1 @ ?z2) 1 = Inr 1"
      by (rule promise_all_zeros2)
    finally show ?thesis .
  next
    case False
    with nc have c: "nc = Dir" by simp
    have b: "\<forall>(p, n) \<in> set t. below ?c p \<longrightarrow> length p < length ?c + fuel"
    proof (intro ballI)
      fix e' assume e': "e' \<in> set t"
      obtain p' n' where pn': "e' = (p', n')" by (cases e')
      show "case e' of (p', n') \<Rightarrow> below ?c p' \<longrightarrow> length p' < length ?c + fuel"
      proof (simp only: pn' prod.case, intro impI)
        assume "below ?c p'"
        then have "below q p'" using below_trans [of q ?c p'] by simp
        with Suc.prems(5) e' pn' have "length p' < length q + Suc fuel" by auto
        then show "length p' < length ?c + fuel" by simp
      qed
    qed
    have "below ?c lp" using lp by (simp add: below_iff)
    moreover have "?c \<noteq> lp" using lp False by simp
    ultimately have "resolveLinkedWorkspaces fuel pf ?c m = Some (Inr 1, ?m2)"
      using Suc.IH [OF uc _ _ Suc.prems(4) b] by simp
    with pj have "resolveLinkedWorkspaces fuel pf (path_join q x) m = Some (Inr 1, ?m2)" by simp
    then have "walk_entries fuel pf q (entry_of (?c, nc) # map entry_of cs2) 0 ?z1 m
        = walk_entries fuel pf q (map entry_of cs2) 0 (?z1 @ [Inr 1]) ?m2"
      using c by (simp add: ent)
    also have "\<dots> = Some (promise_all ((?z1 @ [Inr 1]) @ ?z2) 0, ?m2)" by (rule last)
    also have "promise_all ((?z1 @ [Inr 1]) @ ?z2) 0 = Inr 1"
      using promise_all_one [of _ 1 _ 0] by simp
    finally show ?thesis .
  qed
  with first rd show ?case by simp
qed

lemma map_of_relocated:
  assumes "\<forall>(p, n) \<in> set t. below lp p \<longrightarrow> p = lp" and "\<not> below src lp"
  shows "map_of (relocate src lp t) (lp @ rel) = map_of t (src @ rel)"
  using assms(1)
proof (induction t)
  case Nil
  then show ?case by (simp add: relocate_def)
next
  case (Cons e t)
  obtain p n where e: "e = (p, n)" by (cases e)
  from Cons.prems have rest: "\<forall>(p, n) \<in> set t. below lp p \<longrightarrow> p = lp" by simp
  from Cons.IH [OF rest]
  have ih: "map_of (relocate src lp t) (lp @ rel) = map_of t (src @ rel)" .
  have tail: "relocate src lp (e # t)
      = (if p = lp then [] else [if below src p then (lp @ drop (length src) p, n) else (p, n)])
        @ relocate src lp t"
    using e by (simp add: relocate_def)
  show ?case
  proof (cases "p = lp")
    case True
    with assms(2) have "p \<noteq> src @ rel" by auto
    with True tail e ih show ?thesis by simp
  next
    case False
    show ?thesis
    proof (cases "below src p")
      case True
      then obtain r0 where r0: "p = src @ r0" by (auto simp: below_iff)
      with False tail e ih show ?thesis by auto
    next
      case nu: False
      then have a: "p \<noteq> src @ rel" by auto
      from Cons.prems e False have "\<not> below lp p" by auto
      then have b: "p \<noteq> lp @ rel" by auto
      from False nu tail e ih a b show ?thesis by simp
    qed
  qed
qed

lemma map_of_vacated:
  assumes "\<not> below src lp" and "\<not> below lp src"
  shows "map_of (relocate src lp t) (src @ rel) = None"
proof -
  have "src @ rel \<notin> fst ` set (relocate src lp t)"
  proof
    assume "src @ rel \<in> fst ` set (relocate src lp t)"
    then obtain p n where pn: "(p, n) \<in> set t" "p \<noteq> lp"
      and k: "src @ rel = (if below src p then lp @ drop (length src) p else p)"
      by (auto simp: relocate_def split: if_splits)
    show False
    proof (cases "below src p")
      case True
      with k have "src @ rel = lp @ drop (length src) p" by simp
      then have "below src (lp @ drop (length src) p)" by (metis below_append)
      then have "below src lp \<or> below lp src"
        using below_comparable [of src "lp @ drop (length src) p" lp] by auto
      with assms show False by blast
    next
      case False
      with k have "p = src @ rel" by simp
      with False show False by simp
    qed
  qed
  then show ?thesis by (simp add: map_of_eq_None_iff)
qed

subsection \<open>The count and the relocated directory\<close>

text \<open>
  C6, amended: the count that \<open>resolveLinkedWorkspaces\<close> returns is the number of
  links repaired anywhere in the walk (one debug line each). And on a tree below
  \<open>root\<close> whose only link is at \<open>lp\<close>, where junctions cannot be created and the
  directory \<open>src\<close> the link points to exists outside the tree, any fuel above the
  depth of the tree gives the count 1 and leaves the table with the subtree of \<open>src\<close>
  at \<open>lp\<close>: \<open>lp\<close> is a directory, every path below \<open>lp\<close> holds what the path
  below \<open>src\<close> held, and nothing is left at or below \<open>src\<close>.
\<close>

theorem repair_one_link:
  "(resolveLinkedWorkspaces fuel' pf dirPath m' = Some (Inr fixedLinks, m'') \<longrightarrow>
      length (fix_log m'') = length (fix_log m') + fixedLinks)
   \<and> (repairable t root lp tgt src \<and> files m = t
        \<and> (\<forall>(p, n) \<in> set t. below root p \<longrightarrow> length p < length root + fuel)
      \<longrightarrow> resolveLinkedWorkspaces fuel (table_fs False locked served) root m
            = Some (Inr 1, m\<lparr>files := relocate src lp t, fix_log := fix_log m @ [(lp, tgt)]\<rparr>)
          \<and> map_of (relocate src lp t) lp = Some Dir
          \<and> (\<forall>rel. map_of (relocate src lp t) (lp @ rel) = map_of t (src @ rel))
          \<and> (\<forall>rel. map_of (relocate src lp t) (src @ rel) = None))"
proof (rule conjI; rule impI)
  assume "resolveLinkedWorkspaces fuel' pf dirPath m' = Some (Inr fixedLinks, m'')"
  then show "length (fix_log m'') = length (fix_log m') + fixedLinks"
    by (rule resolveLinkedWorkspaces_log)
next
  assume h: "repairable t root lp tgt src \<and> files m = t
        \<and> (\<forall>(p, n) \<in> set t. below root p \<longrightarrow> length p < length root + fuel)"
  then have r: "repairable t root lp tgt src" by simp
  then have wf: "well_formed t root" and ol: "only_link t root lp tgt"
    and sd: "map_of t src = Some Dir" and o1: "\<not> below root src" and o2: "\<not> below src root"
    unfolding repairable_def by blast+
  from ol have link: "map_of t lp = Some (Symlink tgt)" and lroot: "below root lp"
    and lne: "root \<noteq> lp"
    by (auto simp: only_link_def)
  have ns: "\<not> below src lp"
  proof
    assume "below src lp"
    with lroot have "below src root \<or> below root src"
      using below_comparable [of src lp root] by blast
    with o1 o2 show False by blast
  qed
  have nl: "\<not> below lp src"
    using lroot o1 below_trans [of root lp src] by blast
  have leaf: "\<forall>(p, n) \<in> set t. below lp p \<longrightarrow> p = lp"
  proof (intro ballI)
    fix e assume e: "e \<in> set t"
    obtain p n where pn: "e = (p, n)" by (cases e)
    show "case e of (p, n) \<Rightarrow> below lp p \<longrightarrow> p = lp"
    proof (simp only: pn prod.case, intro impI, rule ccontr)
      assume u: "below lp p" and ne: "p \<noteq> lp"
      then obtain r where "p = lp @ r" "r \<noteq> []" by (auto simp: below_iff)
      with ancestor_dir [OF wf lroot, of r n] e pn have "map_of t lp = Some Dir" by simp
      with link show False by simp
    qed
  qed
  have moved: "map_of (relocate src lp t) (lp @ rel) = map_of t (src @ rel)" for rel
    using leaf ns by (rule map_of_relocated)
  from moved [of "[]"] sd have at_link: "map_of (relocate src lp t) lp = Some Dir" by simp
  have gone: "map_of (relocate src lp t) (src @ rel) = None" for rel
    using ns nl by (rule map_of_vacated)
  have "resolveLinkedWorkspaces fuel (table_fs False locked served) root m
      = Some (Inr 1, m\<lparr>files := relocate src lp t, fix_log := fix_log m @ [(lp, tgt)]\<rparr>)"
    using walk_to_link [OF refl r, of root m fuel locked served] h lroot lne by simp
  with at_link moved gone
  show "resolveLinkedWorkspaces fuel (table_fs False locked served) root m
            = Some (Inr 1, m\<lparr>files := relocate src lp t, fix_log := fix_log m @ [(lp, tgt)]\<rparr>)
          \<and> map_of (relocate src lp t) lp = Some Dir
          \<and> (\<forall>rel. map_of (relocate src lp t) (lp @ rel) = map_of t (src @ rel))
          \<and> (\<forall>rel. map_of (relocate src lp t) (src @ rel) = None)"
    by simp
qed

lemma unpacked_repairable:
  "repairable unpacked_9_1_0 modules arborist_link ''../../workspaces/arborist'' arborist_dir"
  by code_simp

lemma unpacked_bound:
  "\<forall>(p, n) \<in> set unpacked_9_1_0. below modules p \<longrightarrow> length p < length modules + 3"
  by code_simp

lemma unpacked_relocated:
  "relocate arborist_dir arborist_link unpacked_9_1_0 = installed_9_1_0"
  by code_simp

text \<open>
  The release 9.1.0 as unpacked: the link \<open>node_modules/@npmcli/arborist\<close> points to
  \<open>../../workspaces/arborist\<close>, outside \<open>node_modules\<close>; the walk of
  \<open>node_modules\<close> returns 1 and the directory is at the link's path.
\<close>

theorem repair_one_link_witness:
  "resolveLinkedWorkspaces 3 windows modules (start unpacked_9_1_0)
     = Some (Inr 1, \<lparr> files = installed_9_1_0, requests = [],
                     fix_log = [(arborist_link, ''../../workspaces/arborist'')],
                     installedCache = None \<rparr>)
   \<and> map_of installed_9_1_0 arborist_link = Some Dir
   \<and> map_of installed_9_1_0 (arborist_link @ [''package.json''])
       = map_of unpacked_9_1_0 (arborist_dir @ [''package.json''])
   \<and> map_of installed_9_1_0 arborist_dir = None"
proof -
  have f: "files (start unpacked_9_1_0) = unpacked_9_1_0" by (simp add: start_def)
  from repair_one_link [where t = unpacked_9_1_0 and root = modules and lp = arborist_link
      and tgt = "''../../workspaces/arborist''" and src = arborist_dir
      and m = "start unpacked_9_1_0" and fuel = 3 and locked = "[]" and served = archives]
    unpacked_repairable f unpacked_bound
  have "resolveLinkedWorkspaces 3 (table_fs False [] archives) modules (start unpacked_9_1_0)
      = Some (Inr 1, (start unpacked_9_1_0)\<lparr>files := relocate arborist_dir arborist_link unpacked_9_1_0,
            fix_log := fix_log (start unpacked_9_1_0) @ [(arborist_link, ''../../workspaces/arborist'')]\<rparr>)
    \<and> map_of (relocate arborist_dir arborist_link unpacked_9_1_0) arborist_link = Some Dir
    \<and> (\<forall>rel. map_of (relocate arborist_dir arborist_link unpacked_9_1_0) (arborist_link @ rel)
           = map_of unpacked_9_1_0 (arborist_dir @ rel))
    \<and> (\<forall>rel. map_of (relocate arborist_dir arborist_link unpacked_9_1_0) (arborist_dir @ rel) = None)"
    by blast
  then have a: "resolveLinkedWorkspaces 3 windows modules (start unpacked_9_1_0)
      = Some (Inr 1, \<lparr> files = installed_9_1_0, requests = [],
                     fix_log = [(arborist_link, ''../../workspaces/arborist'')],
                     installedCache = None \<rparr>)"
    and b: "map_of installed_9_1_0 arborist_link = Some Dir"
    and c: "\<forall>rel. map_of installed_9_1_0 (arborist_link @ rel) = map_of unpacked_9_1_0 (arborist_dir @ rel)"
    and d: "\<forall>rel. map_of installed_9_1_0 (arborist_dir @ rel) = None"
    by (simp_all add: unpacked_relocated windows_def start_def)
  from d have "map_of installed_9_1_0 (arborist_dir @ []) = None" by blast
  with a b c show ?thesis by simp
qed

text \<open>
  C6, as stated: on a tree with exactly one symbolic link whose junction creation fails
  the count is 1. The directory \<open>C:, t\<close> lists the link \<open>a\<close>, with target \<open>b\<close>,
  before the directory \<open>b\<close>: the loop moves \<open>b\<close> to \<open>a\<close>, then calls itself on
  \<open>b\<close>, which is no longer there, and the walk rejects with \<open>ENOENT\<close> (with
  this fuel and, by \<open>more_fuel\<close>, with any greater).
\<close>

theorem repair_listed_target_counterexample:
  "only_link link_first [''C:'', ''t''] [''C:'', ''t'', ''a''] ''b''
   \<and> map_of link_first (path_join [''C:'', ''t''] ''b'') = Some Dir
   \<and> resolveLinkedWorkspaces 5 windows [''C:'', ''t''] (start link_first)
       = Some (Inl (SysError ''ENOENT''),
               \<lparr> files = link_first_after, requests = [],
                  fix_log = [([''C:'', ''t'', ''a''], ''b'')], installedCache = None \<rparr>)"
  by code_simp

end
